theory Spec2Isabelle
  imports Main
begin

section \<open>The unrolled list of \<^verbatim>\<open>src/lib/unrolled_list.h\<close>\<close>

text \<open>
  The container is a doubly linked chain of heap nodes; every node stores up to
  \<open>NodeMaxSize\<close> elements in raw slots. The model keeps the pointers: a node lives at an
  address of an explicit heap, the head and tail pointers are optional addresses
  (\<open>None\<close> is \<open>nullptr\<close>), and a slot is \<open>None\<close> while it holds no constructed
  element. \<open>NodeMaxSize\<close> is the template parameter; every operation takes it as its
  first argument \<open>C\<close> where the source mentions it.

  Values of \<open>size_type\<close> are natural numbers. A decrement of zero wraps to
  \<open>2 ^ 64 - 1\<close> as it does for \<open>std::size_t\<close>; increments are not wrapped, since fewer than
  \<open>2 ^ 64\<close> elements fit in the address space.
\<close>

type_synonym addr = nat

record 'a node =
  prev :: "addr option"
  nxt :: "addr option"
  count :: nat
  storage :: "'a option list"

text \<open>
  Besides the three members \<^verbatim>\<open>head_\<close>, \<^verbatim>\<open>tail_\<close>, \<^verbatim>\<open>size_\<close> (here
  \<open>m_head\<close>, \<open>m_tail\<close>, \<open>m_size\<close>: a name cannot end in an underscore) the state carries the heap
  the nodes live in and \<open>ctor_plan\<close>, which decides the element constructions still to
  come: the next construction consumes the head of the plan and throws iff it is
  \<open>True\<close>; with an empty plan no construction throws.
\<close>

record 'a unrolled_list =
  m_head :: "addr option"
  m_tail :: "addr option"
  m_size :: nat
  heap :: "'a node option list"
  ctor_plan :: "bool list"

datatype cursor = Cursor (it_node: "addr option") (it_index: nat)

text \<open>
  What a call does: it returns a value in a new state, it lets an exception escape
  (leaving a state behind), it ends in \<open>std::terminate\<close> because an exception reached a
  \<open>noexcept\<close> boundary, or it has undefined behaviour (a null or freed node is
  dereferenced, a slot without an element is read or destroyed, a slot outside the node
  is addressed).
\<close>

datatype ('a, 'r) outcome =
  Returns 'r "'a unrolled_list"
| Throws "'a unrolled_list"
| Terminated
| Undefined

definition bind_o ::
  "('a, 'r) outcome \<Rightarrow> ('r \<Rightarrow> 'a unrolled_list \<Rightarrow> ('a, 'q) outcome) \<Rightarrow> ('a, 'q) outcome" where
  "bind_o m f = (case m of Returns r s \<Rightarrow> f r s | Throws s \<Rightarrow> Throws s
                 | Terminated \<Rightarrow> Terminated | Undefined \<Rightarrow> Undefined)"

text \<open>\<^verbatim>\<open>try { m } catch (...) { h; throw; }\<close>: the handler runs in the state the
  exception left and the exception is thrown again after it.\<close>

definition try_catch ::
  "('a, 'r) outcome \<Rightarrow> ('a unrolled_list \<Rightarrow> ('a, unit) outcome) \<Rightarrow> ('a, 'r) outcome" where
  "try_catch m h = (case m of Throws s \<Rightarrow> bind_o (h s) (\<lambda>_ s'. Throws s') | other \<Rightarrow> other)"

definition noexcept :: "('a, 'r) outcome \<Rightarrow> ('a, 'r) outcome" where
  "noexcept m = (case m of Throws s \<Rightarrow> Terminated | other \<Rightarrow> other)"

definition sz_dec :: "nat \<Rightarrow> nat" where
  "sz_dec x = (if x = 0 then 2 ^ 64 - 1 else x - 1)"

subsection \<open>Nodes on the heap\<close>

definition lookup :: "'a node option list \<Rightarrow> addr \<Rightarrow> 'a node option" where
  "lookup h a = (if a < length h then h ! a else None)"

text \<open>Reading through a node pointer; \<open>None\<close> when the pointer is null or dangling.\<close>

definition fetch :: "addr option \<Rightarrow> 'a unrolled_list \<Rightarrow> 'a node option" where
  "fetch p s = (case p of None \<Rightarrow> None | Some a \<Rightarrow> lookup (heap s) a)"

definition with_node ::
  "addr option \<Rightarrow> 'a unrolled_list \<Rightarrow> ('a node \<Rightarrow> ('a, 'r) outcome) \<Rightarrow> ('a, 'r) outcome" where
  "with_node p s f = (case fetch p s of None \<Rightarrow> Undefined | Some n \<Rightarrow> f n)"

text \<open>Writing members of the node a pointer refers to.\<close>

definition modify ::
  "addr option \<Rightarrow> ('a node \<Rightarrow> 'a node) \<Rightarrow> 'a unrolled_list \<Rightarrow> ('a, unit) outcome" where
  "modify p f s =
     (case p of None \<Rightarrow> Undefined
      | Some a \<Rightarrow> (case lookup (heap s) a of None \<Rightarrow> Undefined
                   | Some n \<Rightarrow> Returns () (s\<lparr>heap := (heap s)[a := Some (f n)]\<rparr>)))"

text \<open>\<open>create_node\<close>: a block at a fresh address, holding a default-constructed node.
  Allocation itself is taken to succeed.\<close>

definition create_node :: "nat \<Rightarrow> 'a unrolled_list \<Rightarrow> addr \<times> 'a unrolled_list" where
  "create_node C s =
     (length (heap s),
      s\<lparr>heap := heap s @ [Some \<lparr>prev = None, nxt = None, count = 0,
                               storage = replicate C None\<rparr>]\<rparr>)"

text \<open>\<open>data_alloc_traits::construct(data_alloc_, nd->elem_ptr(i), v)\<close>: it throws or
  it leaves an element in the slot. Whatever the slot held before is overwritten, as
  placement construction does.\<close>

definition construct :: "addr \<Rightarrow> nat \<Rightarrow> 'a \<Rightarrow> 'a unrolled_list \<Rightarrow> ('a, unit) outcome" where
  "construct a i v s =
     (case lookup (heap s) a of None \<Rightarrow> Undefined
      | Some n \<Rightarrow>
          if i < length (storage n) then
            (case ctor_plan s of
               True # p \<Rightarrow> Throws (s\<lparr>ctor_plan := p\<rparr>)
             | _ \<Rightarrow> Returns () (s\<lparr>heap := (heap s)[a := Some (n\<lparr>storage := (storage n)[i := Some v]\<rparr>)],
                                ctor_plan := tl (ctor_plan s)\<rparr>))
          else Undefined)"

text \<open>\<open>data_alloc_traits::destroy(data_alloc_, nd->elem_ptr(i))\<close> and \<open>obj->~T()\<close>;
  undefined when the slot holds no element.\<close>

definition destroy :: "addr \<Rightarrow> nat \<Rightarrow> 'a unrolled_list \<Rightarrow> ('a, unit) outcome" where
  "destroy a i s =
     (case lookup (heap s) a of None \<Rightarrow> Undefined
      | Some n \<Rightarrow>
          if i < length (storage n) \<and> storage n ! i \<noteq> None then
            Returns () (s\<lparr>heap := (heap s)[a := Some (n\<lparr>storage := (storage n)[i := None]\<rparr>)]\<rparr>)
          else Undefined)"

text \<open>\<open>*(nd->elem_ptr(i))\<close>; \<open>None\<close> when there is no element to refer to.\<close>

definition elem_at :: "addr option \<Rightarrow> nat \<Rightarrow> 'a unrolled_list \<Rightarrow> 'a option" where
  "elem_at p i s =
     (case fetch p s of None \<Rightarrow> None
      | Some n \<Rightarrow> if i < length (storage n) then storage n ! i else None)"

text \<open>
  An argument of type \<^verbatim>\<open>const T&\<close>. The reference is to an object outside the
  container or to the element in a slot of a node (as in \<^verbatim>\<open>l.insert(pos, *it)\<close>). The
  callee reads the object only when it constructs from it, so what it reads is what the
  slot holds then; it is undefined behaviour when the slot holds no element any more.
\<close>

datatype 'a vref = Outside 'a | Slot addr nat

definition read_ref :: "'a vref \<Rightarrow> 'a unrolled_list \<Rightarrow> 'a option" where
  "read_ref r s = (case r of Outside v \<Rightarrow> Some v | Slot a i \<Rightarrow> elem_at (Some a) i s)"

text \<open>\<open>data_alloc_traits::construct(data_alloc_, nd->elem_ptr(i), value)\<close> with the
  \<^verbatim>\<open>const T& value\<close> of the caller.\<close>

definition construct_from ::
  "addr \<Rightarrow> nat \<Rightarrow> 'a vref \<Rightarrow> 'a unrolled_list \<Rightarrow> ('a, unit) outcome" where
  "construct_from a i r s =
     (case read_ref r s of None \<Rightarrow> Undefined | Some v \<Rightarrow> construct a i v s)"

text \<open>The body shared by every shifting loop of the source:
  \<^verbatim>\<open>construct(data_alloc_, to, *from); destroy(data_alloc_, from);\<close>
  (the loops of \<open>erase\<close> and \<open>pop_front\<close> construct from \<open>std::move(*from)\<close>).\<close>

definition move_elem ::
  "addr \<Rightarrow> nat \<Rightarrow> addr \<Rightarrow> nat \<Rightarrow> 'a unrolled_list \<Rightarrow> ('a, unit) outcome" where
  "move_elem src i dst j s =
     (case elem_at (Some src) i s of None \<Rightarrow> Undefined
      | Some v \<Rightarrow> bind_o (construct dst j v s) (\<lambda>_ s1. destroy src i s1))"

text \<open>\<^verbatim>\<open>for (i = n; i > idx; --i) { from = elem_ptr(i - 1); to = elem_ptr(i); ... }\<close>\<close>

fun shift_right :: "addr \<Rightarrow> nat \<Rightarrow> nat \<Rightarrow> 'a unrolled_list \<Rightarrow> ('a, unit) outcome" where
  "shift_right a idx 0 s = Returns () s"
| "shift_right a idx (Suc j) s =
     (if Suc j > idx then bind_o (move_elem a j a (Suc j) s) (\<lambda>_ s1. shift_right a idx j s1)
      else Returns () s)"

text \<open>\<^verbatim>\<open>for (; i < n; ++i) { from = elem_ptr(i); to = elem_ptr(i - 1); ... }\<close>\<close>

function shift_left :: "addr \<Rightarrow> nat \<Rightarrow> nat \<Rightarrow> 'a unrolled_list \<Rightarrow> ('a, unit) outcome" where
  "shift_left a i n s =
     (if i < n then bind_o (move_elem a i a (i - 1) s) (\<lambda>_ s1. shift_left a (Suc i) n s1)
      else Returns () s)"
  by pat_completeness auto
termination
  by (relation "measure (\<lambda>(a, i, n, s). n - i)") auto

text \<open>The loop of \<open>destroy_node\<close>.\<close>

function destroy_elems :: "addr \<Rightarrow> nat \<Rightarrow> nat \<Rightarrow> 'a unrolled_list \<Rightarrow> ('a, unit) outcome" where
  "destroy_elems a i n s =
     (if i < n then bind_o (destroy a i s) (\<lambda>_ s1. destroy_elems a (Suc i) n s1)
      else Returns () s)"
  by pat_completeness auto
termination
  by (relation "measure (\<lambda>(a, i, n, s). n - i)") auto

definition destroy_node :: "addr option \<Rightarrow> 'a unrolled_list \<Rightarrow> ('a, unit) outcome" where
  "destroy_node nd s =
     (case nd of None \<Rightarrow> Returns () s
      | Some a \<Rightarrow>
          with_node nd s (\<lambda>n.
            bind_o (destroy_elems a 0 (count n) s) (\<lambda>_ s1.
              Returns () (s1\<lparr>heap := (heap s1)[a := None]\<rparr>))))"

subsection \<open>Cursors\<close>

definition end_it :: cursor where
  "end_it = Cursor None 0"

definition begin_it :: "'a unrolled_list \<Rightarrow> cursor" where
  "begin_it s = (if m_head s \<noteq> None then Cursor (m_head s) 0 else end_it)"

text \<open>\<open>operator++\<close>, \<open>operator--\<close> and \<open>operator*\<close> of \<open>iterator\<close> and
  \<open>const_iterator\<close> (the two classes have the same bodies); \<open>None\<close> is undefined
  behaviour.\<close>

definition it_incr :: "'a unrolled_list \<Rightarrow> cursor \<Rightarrow> cursor option" where
  "it_incr s it =
     (case it_node it of None \<Rightarrow> Some it
      | Some a \<Rightarrow>
          (case lookup (heap s) a of None \<Rightarrow> None
           | Some n \<Rightarrow>
               if it_index it + 1 \<ge> count n then Some (Cursor (nxt n) 0)
               else Some (Cursor (Some a) (it_index it + 1))))"

definition it_decr :: "'a unrolled_list \<Rightarrow> cursor \<Rightarrow> cursor option" where
  "it_decr s it =
     (case it_node it of None \<Rightarrow> Some it
      | Some a \<Rightarrow>
          if it_index it = 0 then
            (case lookup (heap s) a of None \<Rightarrow> None
             | Some n \<Rightarrow>
                 (case prev n of None \<Rightarrow> Some (Cursor None (it_index it))
                  | Some p \<Rightarrow>
                      (case lookup (heap s) p of None \<Rightarrow> None
                       | Some m \<Rightarrow> Some (Cursor (Some p) (sz_dec (count m))))))
          else Some (Cursor (Some a) (it_index it - 1)))"

definition deref :: "'a unrolled_list \<Rightarrow> cursor \<Rightarrow> 'a option" where
  "deref s it = elem_at (it_node it) (it_index it) s"

subsection \<open>push and pop\<close>

definition empty_ul :: "'a unrolled_list \<Rightarrow> bool" where
  "empty_ul s = (m_size s = 0)"

definition push_back :: "nat \<Rightarrow> 'a vref \<Rightarrow> 'a unrolled_list \<Rightarrow> ('a, unit) outcome" where
  "push_back C v s0 =
     (let s = (if m_tail s0 = None
               then (case create_node C s0 of (a, s') \<Rightarrow> s'\<lparr>m_head := Some a, m_tail := Some a\<rparr>)
               else s0)
      in with_node (m_tail s) s (\<lambda>n.
           if count n < C then
             (let idx = count n in
              try_catch
                (bind_o (construct_from (the (m_tail s)) idx v s) (\<lambda>_ s1.
                 bind_o (modify (m_tail s1) (\<lambda>m. m\<lparr>count := count m + 1\<rparr>) s1) (\<lambda>_ s2.
                 Returns () (s2\<lparr>m_size := m_size s2 + 1\<rparr>))))
                (\<lambda>s1. destroy (the (m_tail s1)) idx s1))
           else
             (case create_node C s of (nd, s1) \<Rightarrow>
              try_catch
                (bind_o (construct_from nd 0 v s1) (\<lambda>_ s2.
                 bind_o (modify (Some nd) (\<lambda>m. m\<lparr>count := 1, prev := m_tail s2\<rparr>) s2) (\<lambda>_ s3.
                 bind_o (modify (m_tail s3) (\<lambda>m. m\<lparr>nxt := Some nd\<rparr>) s3) (\<lambda>_ s4.
                 Returns () (s4\<lparr>m_tail := Some nd, m_size := m_size s4 + 1\<rparr>)))))
                (\<lambda>s2. destroy_node (Some nd) s2))))"

definition push_front :: "nat \<Rightarrow> 'a vref \<Rightarrow> 'a unrolled_list \<Rightarrow> ('a, unit) outcome" where
  "push_front C v s0 =
     (let s = (if m_head s0 = None
               then (case create_node C s0 of (a, s') \<Rightarrow> s'\<lparr>m_head := Some a, m_tail := Some a\<rparr>)
               else s0)
      in with_node (m_head s) s (\<lambda>n.
           if count n < C then
             try_catch
               (bind_o (shift_right (the (m_head s)) 0 (count n) s) (\<lambda>_ s1.
                bind_o (construct_from (the (m_head s1)) 0 v s1) (\<lambda>_ s2.
                bind_o (modify (m_head s2) (\<lambda>m. m\<lparr>count := count m + 1\<rparr>) s2) (\<lambda>_ s3.
                Returns () (s3\<lparr>m_size := m_size s3 + 1\<rparr>)))))
               (\<lambda>s1. with_node (m_head s1) s1 (\<lambda>m. shift_left (the (m_head s1)) 1 (count m) s1))
           else
             (case create_node C s of (nd, s1) \<Rightarrow>
              try_catch
                (bind_o (construct_from nd 0 v s1) (\<lambda>_ s2.
                 bind_o (modify (Some nd) (\<lambda>m. m\<lparr>count := 1, nxt := m_head s2\<rparr>) s2) (\<lambda>_ s3.
                 bind_o (modify (m_head s3) (\<lambda>m. m\<lparr>prev := Some nd\<rparr>) s3) (\<lambda>_ s4.
                 Returns () (s4\<lparr>m_head := Some nd, m_size := m_size s4 + 1\<rparr>)))))
                (\<lambda>s2. destroy_node (Some nd) s2))))"

definition pop_back :: "'a unrolled_list \<Rightarrow> ('a, unit) outcome" where
  "pop_back s =
     noexcept
       (if empty_ul s then Returns () s
        else
          (let nd = m_tail s in
           with_node nd s (\<lambda>n.
             bind_o (modify nd (\<lambda>m. m\<lparr>count := sz_dec (count m)\<rparr>) s) (\<lambda>_ s1.
             let idx = sz_dec (count n) in
             bind_o (destroy (the nd) idx s1) (\<lambda>_ s2.
             let s3 = s2\<lparr>m_size := sz_dec (m_size s2)\<rparr> in
             bind_o
               (if sz_dec (count n) = 0 \<and> nd \<noteq> m_head s3 then
                  (let s4 = s3\<lparr>m_tail := prev n\<rparr> in
                   bind_o (modify (m_tail s4) (\<lambda>m. m\<lparr>nxt := None\<rparr>) s4) (\<lambda>_ s5.
                   destroy_node nd s5))
                else Returns () s3)
               (\<lambda>_ s6.
                  if m_size s6 = 0 then
                    bind_o (destroy_node (m_tail s6) s6) (\<lambda>_ s7.
                    Returns () (s7\<lparr>m_head := None, m_tail := None\<rparr>))
                  else Returns () s6))))))"

definition pop_front :: "'a unrolled_list \<Rightarrow> ('a, unit) outcome" where
  "pop_front s =
     noexcept
       (if empty_ul s then Returns () s
        else
          (let nd = m_head s in
           with_node nd s (\<lambda>n.
             bind_o (destroy (the nd) 0 s) (\<lambda>_ s1.
             bind_o (shift_left (the nd) 1 (count n) s1) (\<lambda>_ s2.
             bind_o (modify nd (\<lambda>m. m\<lparr>count := sz_dec (count m)\<rparr>) s2) (\<lambda>_ s3.
             let s4 = s3\<lparr>m_size := sz_dec (m_size s3)\<rparr> in
             bind_o
               (if sz_dec (count n) = 0 \<and> nd \<noteq> m_tail s4 then
                  (let s5 = s4\<lparr>m_head := nxt n\<rparr> in
                   bind_o (if m_head s5 \<noteq> None
                           then modify (m_head s5) (\<lambda>m. m\<lparr>prev := None\<rparr>) s5
                           else Returns () s5) (\<lambda>_ s6.
                   destroy_node nd s6))
                else Returns () s4)
               (\<lambda>_ s7.
                  if m_size s7 = 0 then
                    bind_o (destroy_node (m_head s7) s7) (\<lambda>_ s8.
                    Returns () (s8\<lparr>m_head := None, m_tail := None\<rparr>))
                  else Returns () s7)))))))"

subsection \<open>insert\<close>

text \<open>The loop that moves the upper half of a full node into the new node:
  \<^verbatim>\<open>for (i = half; i < NodeMaxSize; ++i) { from = node->elem_ptr(i);
  to = new_node->elem_ptr(i - half); ... }\<close>\<close>

function split_loop ::
  "addr \<Rightarrow> addr \<Rightarrow> nat \<Rightarrow> nat \<Rightarrow> nat \<Rightarrow> 'a unrolled_list \<Rightarrow> ('a, unit) outcome" where
  "split_loop node new_node half i C s =
     (if i < C then
        bind_o (move_elem node i new_node (i - half) s) (\<lambda>_ s1.
          split_loop node new_node half (Suc i) C s1)
      else Returns () s)"
  by pat_completeness auto
termination
  by (relation "measure (\<lambda>(node, new_node, half, i, C, s). C - i)") auto

definition insert_elem ::
  "nat \<Rightarrow> cursor \<Rightarrow> 'a vref \<Rightarrow> 'a unrolled_list \<Rightarrow> ('a, cursor) outcome" where
  "insert_elem C cpos v s =
     (let node = it_node cpos; idx = it_index cpos in
      if node = None then
        bind_o (push_back C v s) (\<lambda>_ s1.
        with_node (m_tail s1) s1 (\<lambda>t.
        Returns (Cursor (m_tail s1) (sz_dec (count t))) s1))
      else
        with_node node s (\<lambda>n.
          if count n < C then
            bind_o (shift_right (the node) idx (count n) s) (\<lambda>_ s1.
            bind_o (construct_from (the node) idx v s1) (\<lambda>_ s2.
            bind_o (modify node (\<lambda>m. m\<lparr>count := count m + 1\<rparr>) s2) (\<lambda>_ s3.
            Returns (Cursor node idx) (s3\<lparr>m_size := m_size s3 + 1\<rparr>))))
          else
            (case create_node C s of (new_node, s1) \<Rightarrow>
             let half = C div 2 in
             bind_o (split_loop (the node) new_node half half C s1) (\<lambda>_ s2.
             bind_o (modify (Some new_node) (\<lambda>m. m\<lparr>count := C - half\<rparr>) s2) (\<lambda>_ s3.
             bind_o (modify node (\<lambda>m. m\<lparr>count := half\<rparr>) s3) (\<lambda>_ s4.
             bind_o (modify (Some new_node) (\<lambda>m. m\<lparr>nxt := nxt n\<rparr>) s4) (\<lambda>_ s5.
             bind_o (if nxt n \<noteq> None
                     then modify (nxt n) (\<lambda>m. m\<lparr>prev := Some new_node\<rparr>) s5
                     else Returns () s5) (\<lambda>_ s6.
             bind_o (modify (Some new_node) (\<lambda>m. m\<lparr>prev := node\<rparr>) s6) (\<lambda>_ s7.
             bind_o (modify node (\<lambda>m. m\<lparr>nxt := Some new_node\<rparr>) s7) (\<lambda>_ s8.
             let s9 = (if m_tail s8 = node then s8\<lparr>m_tail := Some new_node\<rparr> else s8) in
             if idx > half then
               (let new_idx = idx - half in
                bind_o (shift_right new_node new_idx (C - half) s9) (\<lambda>_ s10.
                bind_o (construct_from new_node new_idx v s10) (\<lambda>_ s11.
                bind_o (modify (Some new_node) (\<lambda>m. m\<lparr>count := count m + 1\<rparr>) s11) (\<lambda>_ s12.
                Returns (Cursor (Some new_node) new_idx) (s12\<lparr>m_size := m_size s12 + 1\<rparr>)))))
             else
               bind_o (shift_right (the node) idx half s9) (\<lambda>_ s10.
               bind_o (construct_from (the node) idx v s10) (\<lambda>_ s11.
               bind_o (modify node (\<lambda>m. m\<lparr>count := count m + 1\<rparr>) s11) (\<lambda>_ s12.
               Returns (Cursor node idx) (s12\<lparr>m_size := m_size s12 + 1\<rparr>))))))))))))))"

text \<open>\<open>insert(cpos, n, value)\<close>: \<open>ret\<close> starts as the default-constructed iterator and
  every round calls \<open>insert(cpos, value)\<close> with the cursor the caller passed.\<close>

fun insert_n_loop ::
  "nat \<Rightarrow> cursor \<Rightarrow> nat \<Rightarrow> 'a vref \<Rightarrow> cursor \<Rightarrow> 'a unrolled_list \<Rightarrow> ('a, cursor) outcome" where
  "insert_n_loop C cpos 0 v ret s = Returns ret s"
| "insert_n_loop C cpos (Suc k) v ret s =
     bind_o (insert_elem C cpos v s) (\<lambda>r s1. insert_n_loop C cpos k v r s1)"

definition insert_n ::
  "nat \<Rightarrow> cursor \<Rightarrow> nat \<Rightarrow> 'a vref \<Rightarrow> 'a unrolled_list \<Rightarrow> ('a, cursor) outcome" where
  "insert_n C cpos n v s = insert_n_loop C cpos n v (Cursor None 0) s"

subsection \<open>erase\<close>

definition erase :: "cursor \<Rightarrow> 'a unrolled_list \<Rightarrow> ('a, cursor) outcome" where
  "erase cpos s =
     noexcept
       (let nd = it_node cpos; idx = it_index cpos in
        if nd = None then Returns end_it s
        else
          with_node nd s (\<lambda>n.
            bind_o (destroy (the nd) idx s) (\<lambda>_ s1.
            bind_o (shift_left (the nd) (idx + 1) (count n) s1) (\<lambda>_ s2.
            bind_o (modify nd (\<lambda>m. m\<lparr>count := sz_dec (count m)\<rparr>) s2) (\<lambda>_ s3.
            let s4 = s3\<lparr>m_size := sz_dec (m_size s3)\<rparr>; cnt = sz_dec (count n) in
            if cnt = 0 \<and> nd \<noteq> m_head s4 \<and> nd \<noteq> m_tail s4 then
              bind_o (if prev n \<noteq> None
                      then modify (prev n) (\<lambda>m. m\<lparr>nxt := nxt n\<rparr>) s4
                      else Returns () s4) (\<lambda>_ s5.
              bind_o (if nxt n \<noteq> None
                      then modify (nxt n) (\<lambda>m. m\<lparr>prev := prev n\<rparr>) s5
                      else Returns () s5) (\<lambda>_ s6.
              bind_o (destroy_node nd s6) (\<lambda>_ s7.
              if nxt n \<noteq> None then Returns (Cursor (nxt n) 0) s7 else Returns end_it s7)))
            else if cnt = 0 \<and> nd = m_head s4 then
              (let s5 = s4\<lparr>m_head := nxt n\<rparr> in
               bind_o (if m_head s5 \<noteq> None
                       then modify (m_head s5) (\<lambda>m. m\<lparr>prev := None\<rparr>) s5
                       else Returns () s5) (\<lambda>_ s6.
               bind_o (destroy_node nd s6) (\<lambda>_ s7.
               if m_head s7 \<noteq> None then Returns (Cursor (m_head s7) 0) s7
               else Returns end_it s7)))
            else if cnt = 0 \<and> nd = m_tail s4 then
              (let s5 = s4\<lparr>m_tail := prev n\<rparr> in
               bind_o (if m_tail s5 \<noteq> None
                       then modify (m_tail s5) (\<lambda>m. m\<lparr>nxt := None\<rparr>) s5
                       else Returns () s5) (\<lambda>_ s6.
               bind_o (destroy_node nd s6) (\<lambda>_ s7.
               Returns end_it s7)))
            else if m_size s4 = 0 then
              bind_o (destroy_node nd s4) (\<lambda>_ s5.
              Returns end_it (s5\<lparr>m_head := None, m_tail := None\<rparr>))
            else if idx \<ge> cnt then
              (if nxt n \<noteq> None then Returns (Cursor (nxt n) 0) s4 else Returns end_it s4)
            else Returns (Cursor nd idx) s4)))))"

subsection \<open>Traversal and comparison\<close>

text \<open>\<^verbatim>\<open>for (it = begin(); it != end(); ++it) visit(*it);\<close> The loop follows the
  \<open>next\<close> pointers, so on a cyclic chain it does not end: the result is \<open>None\<close> then,
  and also when a step has undefined behaviour.\<close>

partial_function (option) visit :: "'a unrolled_list \<Rightarrow> cursor \<Rightarrow> 'a list option" where
  "visit s it =
     (if it \<noteq> end_it then
        (case deref s it of None \<Rightarrow> None
         | Some x \<Rightarrow>
             (case it_incr s it of None \<Rightarrow> None
              | Some it' \<Rightarrow> Option.bind (visit s it') (\<lambda>xs. Some (x # xs))))
      else Some [])"

declare visit.simps [code]

definition to_list :: "'a unrolled_list \<Rightarrow> 'a list option" where
  "to_list s = visit s (begin_it s)"

text \<open>\<open>std::advance(it, k)\<close> for \<open>k \<ge> 0\<close>: \<open>k\<close> increments.\<close>

fun advance :: "'a unrolled_list \<Rightarrow> nat \<Rightarrow> cursor \<Rightarrow> cursor option" where
  "advance s 0 it = Some it"
| "advance s (Suc k) it = (case it_incr s it of None \<Rightarrow> None | Some it' \<Rightarrow> advance s k it')"

text \<open>\<open>k\<close> decrements, the steps of a reverse traversal.\<close>

fun decr_times :: "'a unrolled_list \<Rightarrow> nat \<Rightarrow> cursor \<Rightarrow> cursor option" where
  "decr_times s 0 it = Some it"
| "decr_times s (Suc k) it =
     (case it_decr s it of None \<Rightarrow> None | Some it' \<Rightarrow> decr_times s k it')"

text \<open>The loop of \<open>operator==\<close>; \<open>None\<close> when it does not end.\<close>

partial_function (option) eq_loop ::
  "'a unrolled_list \<Rightarrow> 'a unrolled_list \<Rightarrow> cursor \<Rightarrow> cursor \<Rightarrow> ('a, bool) outcome option" where
  "eq_loop s other it1 it2 =
     (if it1 \<noteq> end_it then
        (case (deref s it1, deref other it2) of
           (Some x, Some y) \<Rightarrow>
             if x \<noteq> y then Some (Returns False s)
             else (case (it_incr s it1, it_incr other it2) of
                     (Some it1', Some it2') \<Rightarrow> eq_loop s other it1' it2'
                   | _ \<Rightarrow> Some Undefined)
         | _ \<Rightarrow> Some Undefined)
      else Some (Returns True s))"

declare eq_loop.simps [code]

definition op_eq :: "'a unrolled_list \<Rightarrow> 'a unrolled_list \<Rightarrow> ('a, bool) outcome option" where
  "op_eq s other =
     (if m_size s \<noteq> m_size other then Some (Returns False s)
      else eq_loop s other (begin_it s) (begin_it other))"

definition op_neq :: "'a unrolled_list \<Rightarrow> 'a unrolled_list \<Rightarrow> ('a, bool) outcome option" where
  "op_neq s other =
     map_option (\<lambda>r. bind_o r (\<lambda>b s'. Returns (\<not> b) s')) (op_eq s other)"

subsection \<open>Construction\<close>

text \<open>The default constructor, and the constructor from an initializer list, which
  appends the values one by one with \<open>push_back\<close>; the values live in the initializer
  list, outside the container.\<close>

definition new_list :: "'a unrolled_list" where
  "new_list = \<lparr>m_head = None, m_tail = None, m_size = 0, heap = [], ctor_plan = []\<rparr>"

fun push_back_all :: "nat \<Rightarrow> 'a list \<Rightarrow> 'a unrolled_list \<Rightarrow> ('a, unit) outcome" where
  "push_back_all C [] s = Returns () s"
| "push_back_all C (x # xs) s =
     bind_o (push_back C (Outside x) s) (\<lambda>_ s1. push_back_all C xs s1)"

definition init_list :: "nat \<Rightarrow> 'a list \<Rightarrow> ('a, unit) outcome" where
  "init_list C il = push_back_all C il new_list"

section \<open>Well-formed lists and what they hold\<close>

text \<open>\<open>chain h pr p as q\<close>: starting at the pointer \<open>p\<close> the \<open>next\<close> links lead
  through the nodes \<open>as\<close>, in this order, and end with the pointer \<open>q\<close>; the \<open>prev\<close>
  link of every node is its predecessor, \<open>pr\<close> for the first.\<close>

fun chain :: "'a node option list \<Rightarrow> addr option \<Rightarrow> addr option \<Rightarrow> addr list \<Rightarrow> addr option \<Rightarrow> bool" where
  "chain h pr p [] q = (p = q)"
| "chain h pr p (a # as) q =
     (p = Some a \<and> (case lookup h a of None \<Rightarrow> False
                     | Some n \<Rightarrow> prev n = pr \<and> chain h (Some a) (nxt n) as q))"

text \<open>The node invariant of the source: between 1 and \<open>NodeMaxSize\<close> elements,
  in the first \<open>count\<close> of the \<open>NodeMaxSize\<close> slots.\<close>

definition node_ok :: "nat \<Rightarrow> 'a node \<Rightarrow> bool" where
  "node_ok C n = (1 \<le> count n \<and> count n \<le> C \<and> length (storage n) = C \<and>
                  list_all (\<lambda>x. x \<noteq> None) (take (count n) (storage n)))"

definition nodes_ok :: "nat \<Rightarrow> 'a node option list \<Rightarrow> addr list \<Rightarrow> bool" where
  "nodes_ok C h as = list_all (\<lambda>a. case lookup h a of None \<Rightarrow> False | Some n \<Rightarrow> node_ok C n) as"

text \<open>The elements of a node and of the nodes \<open>as\<close>, front to back.\<close>

definition live :: "'a node \<Rightarrow> 'a list" where
  "live n = map the (take (count n) (storage n))"

definition elems :: "'a node option list \<Rightarrow> addr list \<Rightarrow> 'a list" where
  "elems h as = concat (map (\<lambda>a. case lookup h a of None \<Rightarrow> [] | Some n \<Rightarrow> live n) as)"

text \<open>\<open>wellformed C s as\<close>: the nodes of the list are \<open>as\<close>, front to back: the head
  pointer starts a doubly linked chain through them that ends in \<open>nullptr\<close>, no node occurs
  twice, the tail pointer is the last node (\<open>nullptr\<close> when there is none), every node
  satisfies the node invariant and \<open>size_\<close> is the number of elements.\<close>

definition wellformed :: "nat \<Rightarrow> 'a unrolled_list \<Rightarrow> addr list \<Rightarrow> bool" where
  "wellformed C s as =
     (chain (heap s) None (m_head s) as None \<and> distinct as \<and> nodes_ok C (heap s) as \<and>
      m_tail s = (if as = [] then None else Some (last as)) \<and>
      m_size s = length (elems (heap s) as))"

text \<open>The cursor at logical position \<open>k\<close>; the end cursor from the number of
  elements on.\<close>

fun cursor_at :: "'a node option list \<Rightarrow> addr list \<Rightarrow> nat \<Rightarrow> cursor" where
  "cursor_at h [] k = Cursor None 0"
| "cursor_at h (a # as) k =
     (case lookup h a of None \<Rightarrow> Cursor None 0
      | Some n \<Rightarrow> if k < count n then Cursor (Some a) k else cursor_at h as (k - count n))"

text \<open>What the left-shifting loop does to the slots of a node.\<close>

function shl :: "nat \<Rightarrow> nat \<Rightarrow> 'b option list \<Rightarrow> 'b option list" where
  "shl i n st = (if i < n then shl (Suc i) n (st[i - 1 := st ! i, i := None]) else st)"
  by pat_completeness auto

termination
  by (relation "measure (\<lambda>(i, n, st). n - i)") auto

declare shl.simps [simp del]

declare shift_left.simps [simp del]

text \<open>A node after the element in slot \<open>idx\<close> has been destroyed, the gap closed
  and the count decremented.\<close>

definition removed :: "nat \<Rightarrow> 'a node \<Rightarrow> 'a node" where
  "removed idx n =
     n\<lparr>storage := shl (Suc idx) (count n) ((storage n)[idx := None]), count := count n - 1\<rparr>"

text \<open>The predecessor pointer behind the nodes \<open>as\<close>.\<close>

definition last_or :: "addr option \<Rightarrow> addr list \<Rightarrow> addr option" where
  "last_or pr as = (if as = [] then pr else Some (last as))"

declare destroy_elems.simps [simp del]

text \<open>An example: the list \<open>{1, 2, 3, 4, 5}\<close> with node capacity 4, as
  \<open>push_back\<close> builds it.\<close>

definition example_list :: "nat unrolled_list" where
  "example_list =
     \<lparr>m_head = Some 0, m_tail = Some 1, m_size = 5,
      heap = [Some \<lparr>prev = None, nxt = Some 1, count = 4,
                     storage = [Some 1, Some 2, Some 3, Some 4]\<rparr>,
              Some \<lparr>prev = Some 0, nxt = None, count = 1,
                     storage = [Some 5, None, None, None]\<rparr>],
      ctor_plan = []\<rparr>"

text \<open>The same elements as in \<open>example_list\<close>, split differently over two nodes.\<close>

definition example_split :: "nat unrolled_list" where
  "example_split =
     \<lparr>m_head = Some 0, m_tail = Some 1, m_size = 5,
      heap = [Some \<lparr>prev = None, nxt = Some 1, count = 2,
                     storage = [Some 1, Some 2, None, None]\<rparr>,
              Some \<lparr>prev = Some 0, nxt = None, count = 3,
                     storage = [Some 3, Some 4, Some 5, None]\<rparr>],
      ctor_plan = []\<rparr>"

text \<open>What the right-shifting loop does to the slots of a node.\<close>

fun shr :: "nat \<Rightarrow> nat \<Rightarrow> 'b option list \<Rightarrow> 'b option list" where
  "shr idx 0 st = st"
| "shr idx (Suc j) st = (if Suc j > idx then shr idx j (st[Suc j := st ! j, j := None]) else st)"

text \<open>What the loop of a split does to the slots of the old and of the new node.\<close>

function spl ::
  "nat \<Rightarrow> nat \<Rightarrow> nat \<Rightarrow> 'b option list \<times> 'b option list \<Rightarrow> 'b option list \<times> 'b option list" where
  "spl half i C (sa, sb) =
     (if i < C then spl half (Suc i) C (sa[i := None], sb[i - half := sa ! i]) else (sa, sb))"
  by pat_completeness auto

termination
  by (relation "measure (\<lambda>(half, i, C, p). C - i)") auto

declare spl.simps [simp del]

declare split_loop.simps [simp del]


text \<open>The state after the node at \<open>a\<close> (if there is one) has been changed by \<open>f\<close>.\<close>

definition upd :: "addr \<Rightarrow> ('a node \<Rightarrow> 'a node) \<Rightarrow> 'a unrolled_list \<Rightarrow> 'a unrolled_list" where
  "upd a f s = s\<lparr>heap := (heap s)[a := map_option f (lookup (heap s) a)]\<rparr>"





section \<open>Lemmas\<close>

lemma length_live: "node_ok C n \<Longrightarrow> length (live n) = count n"
  by (simp add: live_def node_ok_def)

lemma live_nth: "node_ok C n \<Longrightarrow> i < count n \<Longrightarrow> storage n ! i = Some (live n ! i)"
  by (auto simp: live_def node_ok_def list_all_length)

lemma elems_Nil [simp]: "elems h [] = []"
  by (simp add: elems_def)

lemma elems_Cons: "lookup h a = Some n \<Longrightarrow> elems h (a # as) = live n @ elems h as"
  by (simp add: elems_def)

lemma nodes_ok_Cons:
  "nodes_ok C h (a # as) = (\<exists>n. lookup h a = Some n \<and> node_ok C n \<and> nodes_ok C h as)"
  by (auto simp: nodes_ok_def split: option.splits)

lemma nodes_ok_Nil [simp]: "nodes_ok C h []"
  by (simp add: nodes_ok_def)

lemma cursor_at_end:
  "nodes_ok C h as \<Longrightarrow> length (elems h as) \<le> k \<Longrightarrow> cursor_at h as k = end_it"
proof (induction as arbitrary: k)
  case Nil
  show ?case by (simp add: end_it_def)
next
  case (Cons a as)
  from Cons.prems(1) obtain n where n: "lookup h a = Some n" "node_ok C n" "nodes_ok C h as"
    by (auto simp: nodes_ok_Cons)
  with Cons.prems(2) have "count n \<le> k" "length (elems h as) \<le> k - count n"
    by (simp_all add: elems_Cons length_live)
  with Cons.IH [OF n(3)] n show ?case by simp
qed

lemma cursor_at_node:
  "nodes_ok C h as \<Longrightarrow> k < length (elems h as) \<Longrightarrow>
   \<exists>a n i. cursor_at h as k = Cursor (Some a) i \<and> a \<in> set as \<and> lookup h a = Some n \<and> i < count n"
proof (induction as arbitrary: k)
  case Nil
  then show ?case by simp
next
  case (Cons a as)
  from Cons.prems(1) obtain n where n: "lookup h a = Some n" "node_ok C n" "nodes_ok C h as"
    by (auto simp: nodes_ok_Cons)
  show ?case
  proof (cases "k < count n")
    case True
    with n show ?thesis by auto
  next
    case False
    with Cons.prems(2) n have "k - count n < length (elems h as)"
      by (simp add: elems_Cons length_live)
    from Cons.IH [OF n(3) this] False n show ?thesis by auto
  qed
qed

lemma deref_cursor_at:
  "nodes_ok C (heap s) as \<Longrightarrow> k < length (elems (heap s) as) \<Longrightarrow>
   deref s (cursor_at (heap s) as k) = Some (elems (heap s) as ! k)"
proof (induction as arbitrary: k)
  case Nil
  then show ?case by simp
next
  case (Cons a as)
  from Cons.prems(1) obtain n where n: "lookup (heap s) a = Some n" "node_ok C n"
      "nodes_ok C (heap s) as"
    by (auto simp: nodes_ok_Cons)
  show ?case
  proof (cases "k < count n")
    case True
    with n have "storage n ! k = Some (live n ! k)" "k < length (storage n)"
      by (auto simp: live_nth node_ok_def)
    with True n show ?thesis
      by (simp add: deref_def elem_at_def fetch_def elems_Cons nth_append length_live)
  next
    case False
    with Cons.prems(2) n have "k - count n < length (elems (heap s) as)"
      by (simp add: elems_Cons length_live)
    from Cons.IH [OF n(3) this] False n show ?thesis
      by (simp add: elems_Cons nth_append length_live)
  qed
qed

lemma cursor_at_0:
  "chain h pr p as None \<Longrightarrow> nodes_ok C h as \<Longrightarrow> cursor_at h as 0 = Cursor p 0"
  by (cases as) (auto simp: nodes_ok_Cons node_ok_def)

lemma incr_cursor_at:
  "chain (heap s) pr p as None \<Longrightarrow> nodes_ok C (heap s) as \<Longrightarrow>
   k < length (elems (heap s) as) \<Longrightarrow>
   it_incr s (cursor_at (heap s) as k) = Some (cursor_at (heap s) as (Suc k))"
proof (induction as arbitrary: k pr p)
  case Nil
  then show ?case by simp
next
  case (Cons a as)
  from Cons.prems(2) obtain n where n: "lookup (heap s) a = Some n" "node_ok C n"
      "nodes_ok C (heap s) as"
    by (auto simp: nodes_ok_Cons)
  from Cons.prems(1) n have ch: "chain (heap s) (Some a) (nxt n) as None" by simp
  show ?case
  proof (cases "k < count n")
    case True
    show ?thesis
    proof (cases "Suc k < count n")
      case True
      with n show ?thesis by (simp add: it_incr_def)
    next
      case False
      with True have "Suc k - count n = 0" by simp
      with True False n cursor_at_0 [OF ch n(3)] show ?thesis
        by (simp add: it_incr_def)
    qed
  next
    case False
    with Cons.prems(3) n have "k - count n < length (elems (heap s) as)"
      by (simp add: elems_Cons length_live)
    from Cons.IH [OF ch n(3) this] False n show ?thesis
      by (simp add: Suc_diff_le)
  qed
qed

lemma visit_cursor_at:
  assumes "chain (heap s) pr p as None" "nodes_ok C (heap s) as"
  shows "k \<le> length (elems (heap s) as) \<Longrightarrow>
         visit s (cursor_at (heap s) as k) = Some (drop k (elems (heap s) as))"
proof (induction "length (elems (heap s) as) - k" arbitrary: k)
  case 0
  then have "cursor_at (heap s) as k = end_it"
    using cursor_at_end [OF assms(2)] by simp
  with 0 show ?case by (subst visit.simps) simp
next
  case (Suc d)
  then have k: "k < length (elems (heap s) as)" by simp
  from cursor_at_node [OF assms(2) k] have ne: "cursor_at (heap s) as k \<noteq> end_it"
    by (auto simp: end_it_def)
  from Suc have "visit s (cursor_at (heap s) as (Suc k)) = Some (drop (Suc k) (elems (heap s) as))"
    by simp
  with ne deref_cursor_at [OF assms(2) k] incr_cursor_at [OF assms k] k show ?case
    by (subst visit.simps) (simp add: Cons_nth_drop_Suc)
qed

lemma begin_cursor_at:
  "chain (heap s) None (m_head s) as None \<Longrightarrow> nodes_ok C (heap s) as \<Longrightarrow>
   begin_it s = cursor_at (heap s) as 0"
  by (cases as) (auto simp: begin_it_def end_it_def nodes_ok_Cons node_ok_def)

lemma to_list_elems:
  "chain (heap s) None (m_head s) as None \<Longrightarrow> nodes_ok C (heap s) as \<Longrightarrow>
   to_list s = Some (elems (heap s) as)"
  using visit_cursor_at [of s None "m_head s" as C 0]
  by (simp add: to_list_def begin_cursor_at)

lemma advance_cursor_at:
  assumes "chain (heap s) pr p as None" "nodes_ok C (heap s) as"
  shows "k + j \<le> length (elems (heap s) as) \<Longrightarrow>
         advance s j (cursor_at (heap s) as k) = Some (cursor_at (heap s) as (k + j))"
proof (induction j arbitrary: k)
  case 0
  show ?case by simp
next
  case (Suc j)
  then have "k < length (elems (heap s) as)" by simp
  from incr_cursor_at [OF assms this] Suc.IH [of "Suc k"] Suc.prems show ?case by simp
qed

lemma bind_o_simps [simp]:
  "bind_o (Returns r s) f = f r s"
  "bind_o (Throws s) f = Throws s"
  "bind_o Terminated f = Terminated"
  "bind_o Undefined f = Undefined"
  by (simp_all add: bind_o_def)

lemma noexcept_Returns [simp]: "noexcept (Returns r s) = Returns r s"
  by (simp add: noexcept_def)

lemma lookup_less: "lookup h a = Some n \<Longrightarrow> a < length h"
  by (simp add: lookup_def split: if_splits)

lemma lookup_update:
  "lookup (h[a := x]) b = (if b = a \<and> a < length h then x else lookup h b)"
  by (simp add: lookup_def)

lemma lookup_update_same: "lookup h a = Some n \<Longrightarrow> lookup (h[a := x]) a = x"
  by (simp add: lookup_update lookup_less)

lemma heap_update_id: "lookup (heap s) a = Some n \<Longrightarrow> s\<lparr>heap := (heap s)[a := Some n]\<rparr> = s"
  by (cases s) (simp add: lookup_def list_update_same_conv split: if_splits)

lemma modify_Some:
  "lookup (heap s) a = Some n \<Longrightarrow>
   modify (Some a) f s = Returns () (s\<lparr>heap := (heap s)[a := Some (f n)]\<rparr>)"
  by (simp add: modify_def)

lemma with_node_Some: "lookup (heap s) a = Some n \<Longrightarrow> with_node (Some a) s f = f n"
  by (simp add: with_node_def fetch_def)

lemma destroy_live:
  "lookup (heap s) a = Some n \<Longrightarrow> i < length (storage n) \<Longrightarrow> storage n ! i \<noteq> None \<Longrightarrow>
   destroy a i s = Returns () (s\<lparr>heap := (heap s)[a := Some (n\<lparr>storage := (storage n)[i := None]\<rparr>)]\<rparr>)"
  by (simp add: destroy_def)

lemma construct_no_throw:
  "lookup (heap s) a = Some n \<Longrightarrow> i < length (storage n) \<Longrightarrow> ctor_plan s = [] \<Longrightarrow>
   construct a i v s =
     Returns () (s\<lparr>heap := (heap s)[a := Some (n\<lparr>storage := (storage n)[i := Some v]\<rparr>)]\<rparr>)"
  by (cases s) (simp add: construct_def)

lemma move_elem_within:
  assumes "lookup (heap s) a = Some n" "i < length (storage n)" "j < length (storage n)"
    "storage n ! i \<noteq> None" "i \<noteq> j" "ctor_plan s = []"
  shows "move_elem a i a j s =
     Returns () (s\<lparr>heap := (heap s)[a := Some (n\<lparr>storage := (storage n)[j := storage n ! i, i := None]\<rparr>)]\<rparr>)"
proof -
  from assms obtain v where v: "storage n ! i = Some v" by auto
  with assms show ?thesis
    by (simp add: move_elem_def elem_at_def fetch_def construct_no_throw destroy_live
        lookup_update_same)
qed

lemma length_shl [simp]: "length (shl i n st) = length st"
  by (induction i n st rule: shl.induct) (subst shl.simps, simp)

lemma shift_left_shl:
  "lookup (heap s) a = Some n \<Longrightarrow> ctor_plan s = [] \<Longrightarrow> 1 \<le> i \<Longrightarrow> cnt \<le> length (storage n) \<Longrightarrow>
   \<forall>j. i \<le> j \<and> j < cnt \<longrightarrow> storage n ! j \<noteq> None \<Longrightarrow>
   shift_left a i cnt s =
     Returns () (s\<lparr>heap := (heap s)[a := Some (n\<lparr>storage := shl i cnt (storage n)\<rparr>)]\<rparr>)"
proof (induction a i cnt s arbitrary: n rule: shift_left.induct)
  case (1 a i cnt s)
  show ?case
  proof (cases "i < cnt")
    case False
    with "1.prems"(1) show ?thesis
      by (subst shift_left.simps, subst shl.simps) (simp add: heap_update_id)
  next
    case True
    let ?n1 = "n\<lparr>storage := (storage n)[i - 1 := storage n ! i, i := None]\<rparr>"
    let ?s1 = "s\<lparr>heap := (heap s)[a := Some ?n1]\<rparr>"
    from True "1.prems" have mv: "move_elem a i a (i - 1) s = Returns () ?s1"
      by (intro move_elem_within) auto
    have lk: "lookup (heap ?s1) a = Some ?n1"
      using "1.prems"(1) by (simp add: lookup_update_same)
    have "shift_left a (Suc i) cnt ?s1 =
        Returns () (?s1\<lparr>heap := (heap ?s1)[a := Some (?n1\<lparr>storage := shl (Suc i) cnt (storage ?n1)\<rparr>)]\<rparr>)"
      using True "1.prems" by (intro "1.IH" [OF True lk]) auto
    with True mv show ?thesis
      by (subst shift_left.simps, subst shl.simps) simp
  qed
qed

lemma shl_nth:
  "1 \<le> i \<Longrightarrow> n \<le> length st \<Longrightarrow> j < length st \<Longrightarrow>
   shl i n st ! j =
     (if i < n \<and> i - 1 \<le> j \<and> j < n - 1 then st ! Suc j
      else if i < n \<and> j = n - 1 then None else st ! j)"
proof (induction i n st rule: shl.induct)
  case (1 i n st)
  show ?case
  proof (cases "i < n")
    case False
    then show ?thesis by (subst shl.simps) simp
  next
    case True
    let ?st = "st[i - 1 := st ! i, i := None]"
    from True "1.prems" have IH: "shl (Suc i) n ?st ! j =
      (if Suc i < n \<and> i \<le> j \<and> j < n - 1 then ?st ! Suc j
       else if Suc i < n \<and> j = n - 1 then None else ?st ! j)"
      using "1.IH" [OF True] by simp
    have eq: "shl i n st = shl (Suc i) n ?st"
      using True by (subst shl.simps) simp
    consider "j < i - 1" | "j = i - 1" | "j = i" "i < n - 1" | "j = i" "i = n - 1"
      | "i < j" "j < n - 1" | "i < j" "j = n - 1" | "i < j" "n \<le> j"
      using True by linarith
    then show ?thesis
    proof cases
      case 1 with True "1.prems" show ?thesis unfolding eq IH by (auto simp: nth_list_update)
    next
      case 2 with True "1.prems" show ?thesis unfolding eq IH by (auto simp: nth_list_update)
    next
      case 3 with True "1.prems" show ?thesis unfolding eq IH by (auto simp: nth_list_update)
    next
      case 4 with True "1.prems" show ?thesis unfolding eq IH by (auto simp: nth_list_update)
    next
      case 5 with True "1.prems" show ?thesis unfolding eq IH by (auto simp: nth_list_update)
    next
      case 6 with True "1.prems" show ?thesis unfolding eq IH by (auto simp: nth_list_update)
    next
      case 7 with True "1.prems" show ?thesis unfolding eq IH by (auto simp: nth_list_update)
    qed
  qed
qed

lemma removed_links [simp]: "prev (removed idx n) = prev n" "nxt (removed idx n) = nxt n"
  "count (removed idx n) = count n - 1"
  by (simp_all add: removed_def)

lemma length_storage_removed [simp]: "length (storage (removed idx n)) = length (storage n)"
  by (simp add: removed_def)

lemma removed_storage_nth:
  assumes "node_ok C n" "idx < count n" "j < count n - 1"
  shows "storage (removed idx n) ! j = (if j < idx then storage n ! j else storage n ! Suc j)"
proof -
  from assms have len: "count n \<le> length (storage n)" "j < length (storage n)"
    by (auto simp: node_ok_def)
  then show ?thesis using assms(2,3)
    by (auto simp: removed_def shl_nth nth_list_update)
qed

lemma live_removed:
  assumes "node_ok C n" "idx < count n"
  shows "live (removed idx n) = take idx (live n) @ drop (Suc idx) (live n)"
proof (rule nth_equalityI)
  from assms have len: "count n \<le> length (storage n)" by (simp add: node_ok_def)
  with assms show "length (live (removed idx n)) =
      length (take idx (live n) @ drop (Suc idx) (live n))"
    by (auto simp: live_def)
  fix j assume "j < length (live (removed idx n))"
  with len have j: "j < count n - 1" by (simp add: live_def)
  with len have l: "live (removed idx n) ! j = the (storage (removed idx n) ! j)"
    by (simp add: live_def)
  show "live (removed idx n) ! j = (take idx (live n) @ drop (Suc idx) (live n)) ! j"
  proof (cases "j < idx")
    case True
    with assms j len show ?thesis
      unfolding l removed_storage_nth [OF assms j] by (simp add: live_def nth_append)
  next
    case False
    with assms j len show ?thesis
      unfolding l removed_storage_nth [OF assms j] by (simp add: live_def nth_append min_def)
  qed
qed

lemma node_ok_removed:
  assumes "node_ok C n" "idx < count n" "2 \<le> count n"
  shows "node_ok C (removed idx n)"
proof -
  from assms have len: "count n \<le> length (storage n)"
    and lv: "\<And>j. j < count n \<Longrightarrow> storage n ! j \<noteq> None"
    by (auto simp: node_ok_def list_all_length)
  have "storage (removed idx n) ! j \<noteq> None" if "j < count n - 1" for j
    using that lv [of j] lv [of "Suc j"] removed_storage_nth [OF assms(1,2) that]
    by (cases "j < idx") simp_all
  moreover from assms have "1 \<le> count n - 1" "count n - 1 \<le> C"
    by (auto simp: node_ok_def)
  ultimately show ?thesis using assms(1)
    by (simp add: node_ok_def list_all_length)
qed

lemma sz_dec_pos [simp]: "0 < x \<Longrightarrow> sz_dec x = x - 1"
  by (simp add: sz_dec_def)

text \<open>The first part of erase: destroy the slot, close the gap, decrement the counters.\<close>

lemma erase_prefix:
  assumes "lookup (heap s) a = Some n" "node_ok C n" "idx < count n" "ctor_plan s = []"
  shows "bind_o (destroy a idx s) (\<lambda>_ s1.
         bind_o (shift_left a (Suc idx) (count n) s1) (\<lambda>_ s2.
         bind_o (modify (Some a) (\<lambda>m. m\<lparr>count := sz_dec (count m)\<rparr>) s2) K)) =
         K () (s\<lparr>heap := (heap s)[a := Some (removed idx n)]\<rparr>)"
proof -
  from assms have len: "count n \<le> length (storage n)" "idx < length (storage n)"
    and lv: "\<forall>j < count n. storage n ! j \<noteq> None"
    by (auto simp: node_ok_def list_all_length)
  let ?n1 = "n\<lparr>storage := (storage n)[idx := None]\<rparr>"
  let ?s1 = "s\<lparr>heap := (heap s)[a := Some ?n1]\<rparr>"
  have d: "destroy a idx s = Returns () ?s1"
    using assms len lv by (intro destroy_live) auto
  have lk1: "lookup (heap ?s1) a = Some ?n1"
    using assms(1) by (simp add: lookup_update_same)
  let ?n2 = "?n1\<lparr>storage := shl (Suc idx) (count n) (storage ?n1)\<rparr>"
  let ?s2 = "?s1\<lparr>heap := (heap ?s1)[a := Some ?n2]\<rparr>"
  have sh: "shift_left a (Suc idx) (count n) ?s1 = Returns () ?s2"
    using assms len lv by (intro shift_left_shl [OF lk1]) (auto simp: nth_list_update)
  have lk2: "lookup (heap ?s2) a = Some ?n2"
    using assms(1) by (simp add: lookup_update_same lookup_less)
  have m: "modify (Some a) (\<lambda>m. m\<lparr>count := sz_dec (count m)\<rparr>) ?s2 =
      Returns () (?s2\<lparr>heap := (heap ?s2)[a := Some (?n2\<lparr>count := sz_dec (count ?n2)\<rparr>)]\<rparr>)"
    by (rule modify_Some [OF lk2])
  from assms(3) show ?thesis
    unfolding d sh m bind_o_simps by (simp add: removed_def)
qed

subsection \<open>Chains under heap updates\<close>

lemma chain_cong:
  "(\<And>c. c \<in> set as \<Longrightarrow>
      map_option (\<lambda>n. (prev n, nxt n)) (lookup h' c) =
      map_option (\<lambda>n. (prev n, nxt n)) (lookup h c)) \<Longrightarrow>
   chain h' pr p as q = chain h pr p as q"
proof (induction as arbitrary: pr p)
  case Nil
  show ?case by simp
next
  case (Cons a as)
  have "map_option (\<lambda>n. (prev n, nxt n)) (lookup h' a) =
        map_option (\<lambda>n. (prev n, nxt n)) (lookup h a)"
    by (rule Cons.prems) simp
  moreover have "chain h' pr' p' as q = chain h pr' p' as q" for pr' p'
    by (rule Cons.IH) (simp add: Cons.prems)
  ultimately show ?case
    by (cases "lookup h a"; cases "lookup h' a") auto
qed

lemma payload_cong:
  assumes "\<And>c. c \<in> set as \<Longrightarrow>
      map_option (\<lambda>n. (count n, storage n)) (lookup h' c) =
      map_option (\<lambda>n. (count n, storage n)) (lookup h c)"
  shows "elems h' as = elems h as" and "nodes_ok C h' as = nodes_ok C h as"
proof -
  have "(case lookup h' c of None \<Rightarrow> [] | Some n \<Rightarrow> live n) =
        (case lookup h c of None \<Rightarrow> [] | Some n \<Rightarrow> live n)" if "c \<in> set as" for c
    using assms [OF that] by (cases "lookup h c"; cases "lookup h' c") (auto simp: live_def)
  then show "elems h' as = elems h as"
    by (simp add: elems_def cong: map_cong)
  have "(case lookup h' c of None \<Rightarrow> False | Some n \<Rightarrow> node_ok C n) =
        (case lookup h c of None \<Rightarrow> False | Some n \<Rightarrow> node_ok C n)" if "c \<in> set as" for c
    using assms [OF that] by (cases "lookup h c"; cases "lookup h' c") (auto simp: node_ok_def)
  then show "nodes_ok C h' as = nodes_ok C h as"
    by (simp add: nodes_ok_def list_all_iff)
qed

lemma chain_append:
  "chain h pr p (xs @ ys) q = (\<exists>m. chain h pr p xs m \<and> chain h (last_or pr xs) m ys q)"
proof (induction xs arbitrary: pr p)
  case Nil
  show ?case by (simp add: last_or_def)
next
  case (Cons a xs)
  show ?case
    by (cases "lookup h a") (auto simp: Cons.IH last_or_def)
qed

lemma elems_append [simp]: "elems h (xs @ ys) = elems h xs @ elems h ys"
  by (simp add: elems_def)

lemma nodes_ok_append [simp]: "nodes_ok C h (xs @ ys) = (nodes_ok C h xs \<and> nodes_ok C h ys)"
  by (simp add: nodes_ok_def)

lemma cursor_at_append:
  "nodes_ok C h xs \<Longrightarrow>
   cursor_at h (xs @ ys) (length (elems h xs) + j) = cursor_at h ys j"
proof (induction xs)
  case Nil
  show ?case by simp
next
  case (Cons a xs)
  then obtain n where n: "lookup h a = Some n" "node_ok C n" "nodes_ok C h xs"
    by (auto simp: nodes_ok_Cons)
  with Cons.IH show ?case
    by (simp add: elems_Cons length_live add.assoc)
qed

lemma cursor_at_decomp:
  "nodes_ok C h as \<Longrightarrow> k < length (elems h as) \<Longrightarrow>
   \<exists>pre a post n idx. as = pre @ a # post \<and> lookup h a = Some n \<and> idx < count n \<and>
      cursor_at h as k = Cursor (Some a) idx \<and> k = length (elems h pre) + idx"
proof (induction as arbitrary: k)
  case Nil
  then show ?case by simp
next
  case (Cons a as)
  from Cons.prems(1) obtain n where n: "lookup h a = Some n" "node_ok C n" "nodes_ok C h as"
    by (auto simp: nodes_ok_Cons)
  show ?case
  proof (cases "k < count n")
    case True
    with n have "a # as = [] @ a # as \<and> lookup h a = Some n \<and> k < count n \<and>
      cursor_at h (a # as) k = Cursor (Some a) k \<and> k = length (elems h []) + k"
      by simp
    then show ?thesis by blast
  next
    case False
    with Cons.prems(2) n have "k - count n < length (elems h as)"
      by (simp add: elems_Cons length_live)
    from Cons.IH [OF n(3) this] obtain pre b post m idx where
      d: "as = pre @ b # post" "lookup h b = Some m" "idx < count m"
         "cursor_at h as (k - count n) = Cursor (Some b) idx"
         "k - count n = length (elems h pre) + idx"
      by blast
    with False n have "a # as = (a # pre) @ b # post \<and> lookup h b = Some m \<and> idx < count m \<and>
      cursor_at h (a # as) k = Cursor (Some b) idx \<and> k = length (elems h (a # pre)) + idx"
      by (simp add: elems_Cons length_live)
    then show ?thesis by blast
  qed
qed

lemma chain_last_nxt:
  "chain h pr p (pre @ a # post) None \<Longrightarrow> lookup h a = Some n \<Longrightarrow>
   chain h pr p pre (Some a) \<and> prev n = last_or pr pre \<and> chain h (Some a) (nxt n) post None"
  by (auto simp: chain_append)

lemma chain_head: "chain h pr p (a # as) q \<Longrightarrow> p = Some a"
  by simp

lemma chain_head_append:
  "chain h pr p (pre @ a # post) q \<Longrightarrow> p = Some (hd (pre @ [a]))"
  by (cases pre) auto

lemma chain_nxt_hd:
  "chain h pr p as None \<Longrightarrow> p = (if as = [] then None else Some (hd as))"
  by (cases as) auto

lemma wellformed_decomp:
  assumes wf: "wellformed C s (pre @ a # post)" and n: "lookup (heap s) a = Some n"
  shows "chain (heap s) None (m_head s) pre (Some a)"
    and "chain (heap s) (Some a) (nxt n) post None"
    and "prev n = last_or None pre"
    and "nxt n = (if post = [] then None else Some (hd post))"
    and "m_head s = Some (hd (pre @ [a]))"
    and "m_tail s = Some (last (a # post))"
    and "a \<notin> set pre" "a \<notin> set post" "distinct pre" "distinct post" "set pre \<inter> set post = {}"
    and "nodes_ok C (heap s) pre" "nodes_ok C (heap s) post" "node_ok C n"
    and "m_size s = length (elems (heap s) pre) + count n + length (elems (heap s) post)"
proof -
  from wf have ch: "chain (heap s) None (m_head s) (pre @ a # post) None"
    and d: "distinct (pre @ a # post)" and ok: "nodes_ok C (heap s) (pre @ a # post)"
    and tl: "m_tail s = Some (last (pre @ a # post))"
    and sz: "m_size s = length (elems (heap s) (pre @ a # post))"
    by (simp_all add: wellformed_def)
  from chain_last_nxt [OF ch n]
  show c1: "chain (heap s) None (m_head s) pre (Some a)"
    and c2: "chain (heap s) (Some a) (nxt n) post None"
    and "prev n = last_or None pre" by simp_all
  from chain_nxt_hd [OF c2] show "nxt n = (if post = [] then None else Some (hd post))" .
  from chain_head_append [OF ch] show "m_head s = Some (hd (pre @ [a]))" .
  from tl show "m_tail s = Some (last (a # post))" by simp
  from d show "a \<notin> set pre" "a \<notin> set post" "distinct pre" "distinct post"
    "set pre \<inter> set post = {}" by auto
  from ok n show ok': "nodes_ok C (heap s) pre" "nodes_ok C (heap s) post" "node_ok C n"
    by (auto simp: nodes_ok_Cons)
  from sz n ok' show "m_size s = length (elems (heap s) pre) + count n + length (elems (heap s) post)"
    by (simp add: elems_Cons length_live)
qed

lemma erase_keep:
  assumes wf: "wellformed C s (pre @ a # post)" and n: "lookup (heap s) a = Some n"
    and idx: "idx < count n" and plan: "ctor_plan s = []" and cnt: "2 \<le> count n"
  defines "s' \<equiv> s\<lparr>heap := (heap s)[a := Some (removed idx n)], m_size := m_size s - 1\<rparr>"
  shows "erase (Cursor (Some a) idx) s =
           Returns (if count n - 1 \<le> idx then Cursor (nxt n) 0 else Cursor (Some a) idx) s'"
    and "wellformed C s' (pre @ a # post)"
    and "elems (heap s') (pre @ a # post) =
           elems (heap s) pre @ take idx (live n) @ drop (Suc idx) (live n) @ elems (heap s) post"
    and "cursor_at (heap s') (pre @ a # post) (length (elems (heap s) pre) + idx) =
           (if count n - 1 \<le> idx then Cursor (nxt n) 0 else Cursor (Some a) idx)"
proof -
  note d = wellformed_decomp [OF wf n]
  from d(15) cnt have sz: "2 \<le> m_size s" by simp
  let ?h' = "(heap s)[a := Some (removed idx n)]"
  have lka: "lookup ?h' a = Some (removed idx n)"
    using n by (simp add: lookup_update_same)
  have other: "lookup ?h' c = lookup (heap s) c" if "c \<noteq> a" for c
    using that by (simp add: lookup_update)
  show "erase (Cursor (Some a) idx) s =
           Returns (if count n - 1 \<le> idx then Cursor (nxt n) 0 else Cursor (Some a) idx) s'"
    using n cnt sz idx
    by (simp add: erase_def Let_def with_node_Some erase_prefix [OF n d(14) idx plan] s'_def
        end_it_def)
  have links: "map_option (\<lambda>n. (prev n, nxt n)) (lookup ?h' c) =
      map_option (\<lambda>n. (prev n, nxt n)) (lookup (heap s) c)" for c
    using n lka other by (cases "c = a") simp_all
  have pay: "map_option (\<lambda>n. (count n, storage n)) (lookup ?h' c) =
      map_option (\<lambda>n. (count n, storage n)) (lookup (heap s) c)" if "c \<noteq> a" for c
    using other [OF that] by simp
  have e_pre: "elems ?h' pre = elems (heap s) pre"
    using d(7) by (intro payload_cong(1) pay) auto
  have "nodes_ok C ?h' pre = nodes_ok C (heap s) pre"
    using d(7) by (intro payload_cong(2) pay) auto
  with d(12) have ok_pre: "nodes_ok C ?h' pre" by simp
  have e_post: "elems ?h' post = elems (heap s) post"
    using d(8) by (intro payload_cong(1) pay) auto
  have "nodes_ok C ?h' post = nodes_ok C (heap s) post"
    using d(8) by (intro payload_cong(2) pay) auto
  with d(13) have ok_post: "nodes_ok C ?h' post" by simp
  show el: "elems (heap s') (pre @ a # post) =
      elems (heap s) pre @ take idx (live n) @ drop (Suc idx) (live n) @ elems (heap s) post"
    using lka e_pre e_post by (simp add: s'_def elems_Cons live_removed [OF d(14) idx])
  have ch: "chain ?h' None (m_head s) (pre @ a # post) None"
    using wf chain_cong [of "pre @ a # post" ?h' "heap s", OF links]
    by (simp add: wellformed_def)
  have ok: "nodes_ok C ?h' (pre @ a # post)"
    using ok_pre ok_post lka node_ok_removed [OF d(14) idx cnt] by (simp add: nodes_ok_Cons)
  from wf have tl: "m_tail s = Some (last (pre @ a # post))" and dist: "distinct (pre @ a # post)"
    by (simp_all add: wellformed_def)
  have szl: "m_size s - 1 = length (elems (heap s') (pre @ a # post))"
    unfolding el using d(15) idx length_live [OF d(14)] by simp
  show "wellformed C s' (pre @ a # post)"
    unfolding wellformed_def using ch ok tl dist szl
    by (simp add: s'_def del: elems_append)
  have "cursor_at ?h' (pre @ a # post) (length (elems ?h' pre) + idx) = cursor_at ?h' (a # post) idx"
    by (rule cursor_at_append [OF ok_pre])
  moreover have "cursor_at ?h' post 0 = Cursor (nxt n) 0"
    using chain_cong [of post ?h' "heap s", OF links] d(2) ok_post
    by (intro cursor_at_0 [of _ "Some a"]) simp_all
  ultimately show "cursor_at (heap s') (pre @ a # post) (length (elems (heap s) pre) + idx) =
      (if count n - 1 \<le> idx then Cursor (nxt n) 0 else Cursor (Some a) idx)"
    using lka idx e_pre by (auto simp: s'_def)
qed

lemma destroy_node_empty:
  "lookup (heap s) a = Some m \<Longrightarrow> count m = 0 \<Longrightarrow>
   destroy_node (Some a) s = Returns () (s\<lparr>heap := (heap s)[a := None]\<rparr>)"
  by (simp add: destroy_node_def with_node_Some destroy_elems.simps [of a 0 0])

lemma chain_relink_pre:
  assumes ch: "chain h pr p (xs @ [b]) q" and d: "b \<notin> set xs"
    and same: "\<And>c. c \<in> set xs \<Longrightarrow>
      map_option (\<lambda>n. (prev n, nxt n)) (lookup h' c) =
      map_option (\<lambda>n. (prev n, nxt n)) (lookup h c)"
    and b: "map_option (\<lambda>n. (prev n, nxt n)) (lookup h' b) =
      map_option (\<lambda>n. (prev n, m)) (lookup h b)"
  shows "chain h' pr p (xs @ [b]) m"
proof -
  from ch obtain nb where 1: "chain h pr p xs (Some b)" and nb: "lookup h b = Some nb"
      "prev nb = last_or pr xs"
    by (auto simp: chain_append split: option.splits)
  from 1 have "chain h' pr p xs (Some b)"
    using chain_cong [of xs h' h, OF same] by simp
  moreover from b nb obtain nb' where "lookup h' b = Some nb'" "prev nb' = last_or pr xs"
      "nxt nb' = m"
    by (cases "lookup h' b") auto
  ultimately show ?thesis
    by (auto simp: chain_append)
qed

lemma chain_relink_post:
  assumes ch: "chain h pr p (b # ys) q" and d: "b \<notin> set ys"
    and same: "\<And>c. c \<in> set ys \<Longrightarrow>
      map_option (\<lambda>n. (prev n, nxt n)) (lookup h' c) =
      map_option (\<lambda>n. (prev n, nxt n)) (lookup h c)"
    and b: "map_option (\<lambda>n. (prev n, nxt n)) (lookup h' b) =
      map_option (\<lambda>n. (pr', nxt n)) (lookup h b)"
  shows "chain h' pr' p (b # ys) q"
proof -
  from ch obtain nb where p: "p = Some b" and nb: "lookup h b = Some nb"
      and 1: "chain h (Some b) (nxt nb) ys q"
    by (auto split: option.splits)
  from 1 have "chain h' (Some b) (nxt nb) ys q"
    using chain_cong [of ys h' h, OF same] by simp
  moreover from b nb obtain nb' where "lookup h' b = Some nb'" "prev nb' = pr'"
      "nxt nb' = nxt nb"
    by (cases "lookup h' b") auto
  ultimately show ?thesis using p by simp
qed

text \<open>What unlinking the node at \<open>a\<close> leaves, whatever branch of erase did it.\<close>

lemma unlink_props:
  assumes wf: "wellformed C s (pre @ a # post)" and n: "lookup (heap s) a = Some n"
    and pay: "\<And>c. c \<noteq> a \<Longrightarrow>
      map_option (\<lambda>n. (count n, storage n)) (lookup h' c) =
      map_option (\<lambda>n. (count n, storage n)) (lookup (heap s) c)"
    and lnk: "\<And>c. c \<noteq> a \<Longrightarrow> pre = [] \<or> c \<noteq> last pre \<Longrightarrow> post = [] \<or> c \<noteq> hd post \<Longrightarrow>
      map_option (\<lambda>n. (prev n, nxt n)) (lookup h' c) =
      map_option (\<lambda>n. (prev n, nxt n)) (lookup (heap s) c)"
    and lp: "pre \<noteq> [] \<Longrightarrow>
      map_option (\<lambda>m. (prev m, nxt m)) (lookup h' (last pre)) =
      map_option (\<lambda>m. (prev m, nxt n)) (lookup (heap s) (last pre))"
    and lq: "post \<noteq> [] \<Longrightarrow>
      map_option (\<lambda>m. (prev m, nxt m)) (lookup h' (hd post)) =
      map_option (\<lambda>m. (prev n, nxt m)) (lookup (heap s) (hd post))"
  shows "chain h' None (if pre = [] then nxt n else m_head s) (pre @ post) None"
    and "nodes_ok C h' (pre @ post)"
    and "elems h' (pre @ post) = elems (heap s) pre @ elems (heap s) post"
    and "cursor_at h' (pre @ post) (length (elems (heap s) pre)) = Cursor (nxt n) 0"
proof -
  note d = wellformed_decomp [OF wf n]
  have e_pre: "elems h' pre = elems (heap s) pre"
    using d(7) by (intro payload_cong(1) pay) auto
  have "nodes_ok C h' pre = nodes_ok C (heap s) pre"
    using d(7) by (intro payload_cong(2) pay) auto
  with d(12) have ok_pre: "nodes_ok C h' pre" by simp
  have e_post: "elems h' post = elems (heap s) post"
    using d(8) by (intro payload_cong(1) pay) auto
  have "nodes_ok C h' post = nodes_ok C (heap s) post"
    using d(8) by (intro payload_cong(2) pay) auto
  with d(13) have ok_post: "nodes_ok C h' post" by simp
  from ok_pre ok_post show "nodes_ok C h' (pre @ post)" by simp
  from e_pre e_post show "elems h' (pre @ post) = elems (heap s) pre @ elems (heap s) post"
    by simp
  have c_pre: "chain h' None (if pre = [] then nxt n else m_head s) pre (nxt n)"
  proof (cases "pre = []")
    case True
    then show ?thesis by simp
  next
    case False
    then obtain xs b where pre: "pre = xs @ [b]" by (metis rev_exhaust)
    with d(9,11) have nin: "b \<notin> set xs" "b \<notin> set post" by auto
    have "chain h' None (m_head s) (xs @ [b]) (nxt n)"
    proof (rule chain_relink_pre [OF _ nin(1)])
      show "chain (heap s) None (m_head s) (xs @ [b]) (Some a)" using d(1) pre by simp
      show "map_option (\<lambda>n. (prev n, nxt n)) (lookup h' c) =
            map_option (\<lambda>n. (prev n, nxt n)) (lookup (heap s) c)" if "c \<in> set xs" for c
      proof (rule lnk)
        from that d(7) pre show "c \<noteq> a" by auto
        from that nin pre show "pre = [] \<or> c \<noteq> last pre" by auto
        from that d(11) pre show "post = [] \<or> c \<noteq> hd post"
          by (cases post) auto
      qed
      from lp [OF False] pre show "map_option (\<lambda>n. (prev n, nxt n)) (lookup h' b) =
            map_option (\<lambda>m. (prev m, nxt n)) (lookup (heap s) b)" by simp
    qed
    with False pre show ?thesis by simp
  qed
  have c_post: "chain h' (last_or None pre) (nxt n) post None"
  proof (cases post)
    case Nil
    with d(4) show ?thesis by simp
  next
    case (Cons b ys)
    with d(10,11) have nin: "b \<notin> set ys" "b \<notin> set pre" by auto
    show ?thesis unfolding Cons
    proof (rule chain_relink_post [OF _ nin(1)])
      show "chain (heap s) (Some a) (nxt n) (b # ys) None" using d(2) Cons by simp
      show "map_option (\<lambda>n. (prev n, nxt n)) (lookup h' c) =
            map_option (\<lambda>n. (prev n, nxt n)) (lookup (heap s) c)" if "c \<in> set ys" for c
      proof (rule lnk)
        from that d(8) Cons show "c \<noteq> a" by auto
        from that d(11) Cons show "pre = [] \<or> c \<noteq> last pre"
          by (cases pre rule: rev_cases) auto
        from that nin Cons show "post = [] \<or> c \<noteq> hd post" by auto
      qed
      from lq Cons d(3) show "map_option (\<lambda>n. (prev n, nxt n)) (lookup h' b) =
            map_option (\<lambda>m. (last_or None pre, nxt m)) (lookup (heap s) b)" by simp
    qed
  qed
  from c_pre c_post show "chain h' None (if pre = [] then nxt n else m_head s) (pre @ post) None"
    by (auto simp: chain_append)
  have "cursor_at h' (pre @ post) (length (elems h' pre) + 0) = cursor_at h' post 0"
    by (rule cursor_at_append [OF ok_pre])
  also have "\<dots> = Cursor (nxt n) 0"
    by (rule cursor_at_0 [OF c_post ok_post])
  finally show "cursor_at h' (pre @ post) (length (elems (heap s) pre)) = Cursor (nxt n) 0"
    by (simp add: e_pre)
qed

lemma nodes_ok_lookup: "nodes_ok C h as \<Longrightarrow> c \<in> set as \<Longrightarrow> \<exists>m. lookup h c = Some m \<and> node_ok C m"
  by (auto simp: nodes_ok_def list_all_iff split: option.splits)

lemma wellformed_traversal:
  assumes "wellformed C s as"
  shows "to_list s = Some (elems (heap s) as)"
    and "k \<le> m_size s \<Longrightarrow> advance s k (begin_it s) = Some (cursor_at (heap s) as k)"
proof -
  from assms have ch: "chain (heap s) None (m_head s) as None" and ok: "nodes_ok C (heap s) as"
    and sz: "m_size s = length (elems (heap s) as)"
    by (simp_all add: wellformed_def)
  from to_list_elems [OF ch ok] show "to_list s = Some (elems (heap s) as)" .
  show "advance s k (begin_it s) = Some (cursor_at (heap s) as k)" if "k \<le> m_size s"
    using advance_cursor_at [OF ch ok, of 0 k] that sz begin_cursor_at [OF ch ok] by simp
qed

lemma erase_unlink:
  assumes wf: "wellformed C s (pre @ a # post)" and n: "lookup (heap s) a = Some n"
    and cnt: "count n = 1" and plan: "ctor_plan s = []"
  shows "\<exists>s'. erase (Cursor (Some a) 0) s = Returns (Cursor (nxt n) 0) s' \<and>
           m_size s' = m_size s - 1 \<and> ctor_plan s' = [] \<and>
           m_head s' = (if pre = [] then nxt n else m_head s) \<and>
           m_tail s' = (if post = [] \<and> pre \<noteq> [] then prev n else m_tail s) \<and>
           lookup (heap s') a = None \<and>
           chain (heap s') None (m_head s') (pre @ post) None \<and>
           nodes_ok C (heap s') (pre @ post) \<and>
           elems (heap s') (pre @ post) = elems (heap s) pre @ elems (heap s) post \<and>
           cursor_at (heap s') (pre @ post) (length (elems (heap s) pre)) = Cursor (nxt n) 0"
proof -
  note d = wellformed_decomp [OF wf n]
  from cnt have idx: "0 < count n" by simp
  let ?n1 = "removed 0 n"
  let ?h1 = "(heap s)[a := Some ?n1]"
  define s3 where "s3 = s\<lparr>heap := ?h1\<rparr>"
  note pre = erase_prefix [OF n d(14) idx plan, folded s3_def]
  have s3: "heap s3 = ?h1" "m_head s3 = m_head s" "m_tail s3 = m_tail s" "m_size s3 = m_size s"
    "ctor_plan s3 = ctor_plan s"
    by (simp_all add: s3_def)
  have alen: "a < length (heap s)" using n by (rule lookup_less)
  have sz: "m_size s = 0 \<longleftrightarrow> False" using d(15) cnt by simp
  have fin: "\<exists>s'. erase (Cursor (Some a) 0) s = Returns (Cursor (nxt n) 0) s' \<and>
      m_size s' = m_size s - 1 \<and> ctor_plan s' = [] \<and>
      m_head s' = (if pre = [] then nxt n else m_head s) \<and>
      m_tail s' = (if post = [] \<and> pre \<noteq> [] then prev n else m_tail s) \<and>
      heap s' = h'"
    if h': "h' = (let h2 = (if pre = [] then ?h1
                        else ?h1[last pre := map_option (\<lambda>m. m\<lparr>nxt := nxt n\<rparr>) (lookup (heap s) (last pre))]);
                  h3 = (if post = [] then h2
                        else h2[hd post := map_option (\<lambda>m. m\<lparr>prev := prev n\<rparr>) (lookup (heap s) (hd post))])
              in h3[a := None])" for h'
  proof (cases pre rule: rev_cases)
    case Nil
    with d(5) have hd: "m_head s = Some a" by simp
    from Nil d(3) have pn: "prev n = None" by (simp add: last_or_def)
    show ?thesis
    proof (cases post)
      case Nil2: Nil
      with d(4) have nn: "nxt n = None" by simp
      show ?thesis
        apply (simp add: erase_def Let_def with_node_Some [OF n] pre s3)
        using Nil Nil2 hd nn cnt n alen sz plan
        apply (simp add: s3 destroy_node_empty lookup_update modify_Some end_it_def h')
        done
    next
      case (Cons q ys)
      with d(4) have nn: "nxt n = Some q" by simp
      from Cons d(8) have qa: "q \<noteq> a" by auto
      from nodes_ok_lookup [OF d(13), of q] Cons obtain nq where nq: "lookup (heap s) q = Some nq"
        by auto
      show ?thesis
        apply (simp add: erase_def Let_def with_node_Some [OF n] pre s3)
        using Nil Cons hd nn cnt n alen sz plan qa nq pn
        apply (simp add: s3 destroy_node_empty lookup_update modify_Some end_it_def h')
        done
    qed
  next
    case (snoc xs p)
    with d(5) have hd: "m_head s = Some (hd (xs @ [p]))" by (cases xs) simp_all
    from snoc d(7) have "hd (xs @ [p]) \<noteq> a" by (cases xs) auto
    with hd have hna: "Some a \<noteq> m_head s" by simp
    from snoc d(3) have pn: "prev n = Some p" by (simp add: last_or_def)
    from snoc d(7) have pa: "p \<noteq> a" by auto
    from nodes_ok_lookup [OF d(12), of p] snoc obtain np where np: "lookup (heap s) p = Some np"
      by auto
    show ?thesis
    proof (cases post)
      case Nil
      with d(4) have nn: "nxt n = None" by simp
      from Nil d(6) have tl: "m_tail s = Some a" by simp
      show ?thesis
        apply (simp add: erase_def Let_def with_node_Some [OF n] pre s3)
        using snoc Nil hna tl nn cnt n alen sz plan pa np pn
        apply (simp add: s3 destroy_node_empty lookup_update modify_Some end_it_def h')
        done
    next
      case (Cons q ys)
      with d(4) have nn: "nxt n = Some q" by simp
      from Cons d(8) have qa: "q \<noteq> a" by auto
      from Cons snoc d(11) have qp: "q \<noteq> p" by auto
      from nodes_ok_lookup [OF d(13), of q] Cons obtain nq where nq: "lookup (heap s) q = Some nq"
        by auto
      from Cons d(6) d(8) have tl: "Some a \<noteq> m_tail s" by auto
      show ?thesis
        apply (simp add: erase_def Let_def with_node_Some [OF n] pre s3)
        using snoc Cons hna tl nn cnt n alen sz plan pa np pn qa qp nq
        apply (simp add: s3 destroy_node_empty lookup_update modify_Some end_it_def h')
        done
    qed
  qed
  define h' where "h' = (let h2 = (if pre = [] then ?h1
                        else ?h1[last pre := map_option (\<lambda>m. m\<lparr>nxt := nxt n\<rparr>) (lookup (heap s) (last pre))]);
                  h3 = (if post = [] then h2
                        else h2[hd post := map_option (\<lambda>m. m\<lparr>prev := prev n\<rparr>) (lookup (heap s) (hd post))])
              in h3[a := None])"
  from fin [OF h'_def] obtain s' where s': "erase (Cursor (Some a) 0) s = Returns (Cursor (nxt n) 0) s'"
      "m_size s' = m_size s - 1" "ctor_plan s' = []"
      "m_head s' = (if pre = [] then nxt n else m_head s)"
      "m_tail s' = (if post = [] \<and> pre \<noteq> [] then prev n else m_tail s)"
      "heap s' = h'"
    by blast
  have lpa: "pre \<noteq> [] \<Longrightarrow> last pre \<noteq> a" using d(7) by auto
  have lqa: "post \<noteq> [] \<Longrightarrow> hd post \<noteq> a" using d(8) by auto
  have lpq: "pre \<noteq> [] \<Longrightarrow> post \<noteq> [] \<Longrightarrow> last pre \<noteq> hd post"
    using d(11) by (metis disjoint_iff hd_in_set last_in_set)
  have lk: "lookup h' c =
      (if c = a then None
       else if post \<noteq> [] \<and> c = hd post then map_option (\<lambda>m. m\<lparr>prev := prev n\<rparr>) (lookup (heap s) c)
       else if pre \<noteq> [] \<and> c = last pre then map_option (\<lambda>m. m\<lparr>nxt := nxt n\<rparr>) (lookup (heap s) c)
       else lookup (heap s) c)" for c
    using alen lpa lqa lpq
    by (auto simp: h'_def Let_def lookup_update lookup_def)
  have pay: "map_option (\<lambda>n. (count n, storage n)) (lookup h' c) =
      map_option (\<lambda>n. (count n, storage n)) (lookup (heap s) c)" if "c \<noteq> a" for c
    using that by (simp add: lk option.map_comp comp_def)
  have lnk: "map_option (\<lambda>n. (prev n, nxt n)) (lookup h' c) =
      map_option (\<lambda>n. (prev n, nxt n)) (lookup (heap s) c)"
    if "c \<noteq> a" "pre = [] \<or> c \<noteq> last pre" "post = [] \<or> c \<noteq> hd post" for c
    using that by (auto simp: lk)
  have lp: "map_option (\<lambda>m. (prev m, nxt m)) (lookup h' (last pre)) =
      map_option (\<lambda>m. (prev m, nxt n)) (lookup (heap s) (last pre))" if "pre \<noteq> []"
    using that lpa lpq by (auto simp: lk option.map_comp comp_def)
  have lq: "map_option (\<lambda>m. (prev m, nxt m)) (lookup h' (hd post)) =
      map_option (\<lambda>m. (prev n, nxt m)) (lookup (heap s) (hd post))" if "post \<noteq> []"
    using that lqa by (auto simp: lk option.map_comp comp_def)
  note props = unlink_props [OF wf n pay lnk lp lq]
  from props s' lk [of a] show ?thesis by auto
qed

lemma take_drop_middle:
  "idx < length l \<Longrightarrow>
   take (length P + idx) (P @ l @ Q) @ drop (Suc (length P + idx)) (P @ l @ Q) =
   P @ take idx l @ drop (Suc idx) l @ Q"
  by simp

lemma nth_take_drop_Suc:
  "Suc k < length xs \<Longrightarrow> (take k xs @ drop (Suc k) xs) ! k = xs ! Suc k"
  by (simp add: nth_append min_def)

lemma example_list_built: "init_list 4 [1, 2, 3, 4, 5] = Returns () example_list"
  by code_simp

lemma example_list_wellformed: "wellformed 4 example_list [0, 1]"
  by code_simp

lemma eq_loop_cursor_at:
  assumes s: "chain (heap s) pr p as None" "nodes_ok C (heap s) as"
    and t: "chain (heap t) pr' p' bs None" "nodes_ok C (heap t) bs"
    and len: "length (elems (heap s) as) = length (elems (heap t) bs)"
  shows "k \<le> length (elems (heap s) as) \<Longrightarrow>
         eq_loop s t (cursor_at (heap s) as k) (cursor_at (heap t) bs k) =
           Some (Returns (drop k (elems (heap s) as) = drop k (elems (heap t) bs)) s)"
proof (induction "length (elems (heap s) as) - k" arbitrary: k)
  case 0
  then have "cursor_at (heap s) as k = end_it"
    using cursor_at_end [OF s(2)] by simp
  with 0 len show ?case by (subst eq_loop.simps) simp
next
  case (Suc d)
  let ?xs = "elems (heap s) as" and ?ys = "elems (heap t) bs"
  from Suc have k: "k < length ?xs" by simp
  with len have k': "k < length ?ys" by simp
  from cursor_at_node [OF s(2) k] have ne: "cursor_at (heap s) as k \<noteq> end_it"
    by (auto simp: end_it_def)
  have dx: "drop k ?xs = ?xs ! k # drop (Suc k) ?xs" and dy: "drop k ?ys = ?ys ! k # drop (Suc k) ?ys"
    using k k' by (simp_all add: Cons_nth_drop_Suc)
  from Suc have IH: "eq_loop s t (cursor_at (heap s) as (Suc k)) (cursor_at (heap t) bs (Suc k)) =
      Some (Returns (drop (Suc k) ?xs = drop (Suc k) ?ys) s)"
    by simp
  show ?case
    using ne deref_cursor_at [OF s(2) k] deref_cursor_at [OF t(2) k']
      incr_cursor_at [OF s k] incr_cursor_at [OF t k'] IH
    by (subst eq_loop.simps) (simp add: dx dy)
qed

lemma length_shr [simp]: "length (shr idx i st) = length st"
  by (induction i arbitrary: st) simp_all





lemma length_spl [simp]:
  "length (fst (spl half i C (sa, sb))) = length sa"
  "length (snd (spl half i C (sa, sb))) = length sb"
  by (induction half i C "(sa, sb)" arbitrary: sa sb rule: spl.induct; subst spl.simps; simp)+







lemma node_ok_slots: "node_ok C n \<Longrightarrow> \<forall>j<count n. storage n ! j \<noteq> None"
  by (simp add: node_ok_def list_all_length)


lemma upd_fields [simp]:
  "m_head (upd a f s) = m_head s" "m_tail (upd a f s) = m_tail s"
  "m_size (upd a f s) = m_size s" "ctor_plan (upd a f s) = ctor_plan s"
  "length (heap (upd a f s)) = length (heap s)"
  by (simp_all add: upd_def)
















section \<open>Properties\<close>

text \<open>
  C1. A throwing element construction during \<open>insert(position, value)\<close> should leave the
  container as it was. The code has no handler in \<open>insert\<close>. With capacity 4 and the list
  \<open>{1, 2}\<close>, inserting at \<open>begin()\<close> when the second construction throws leaves the node
  with slot 1 destroyed and the old second element in slot 2 (the traversal then meets
  a slot without an element); with the full node \<open>{1, 2, 3, 4}\<close> the throw on the split
  path leaves slot 2 destroyed, its element stranded in a node that is not linked.
\<close>

theorem insert_throw_not_rolled_back:
  "bind_o (init_list 4 [1, 2 :: nat])
     (\<lambda>_ s. insert_elem 4 (begin_it s) (Outside 9) (s\<lparr>ctor_plan := [False, True]\<rparr>)) =
   Throws \<lparr>m_head = Some 0, m_tail = Some 0, m_size = 2,
            heap = [Some \<lparr>prev = None, nxt = None, count = 2,
                           storage = [Some 1, None, Some 2, None]\<rparr>],
            ctor_plan = []\<rparr> \<and>
   bind_o (init_list 4 [1, 2, 3, 4 :: nat])
     (\<lambda>_ s. insert_elem 4 (begin_it s) (Outside 9) (s\<lparr>ctor_plan := [False, True]\<rparr>)) =
   Throws \<lparr>m_head = Some 0, m_tail = Some 0, m_size = 4,
            heap = [Some \<lparr>prev = None, nxt = None, count = 4,
                           storage = [Some 1, Some 2, None, Some 4]\<rparr>,
                    Some \<lparr>prev = None, nxt = None, count = 0,
                           storage = [Some 3, None, None, None]\<rparr>],
            ctor_plan = []\<rparr>"
  by code_simp

text \<open>
  C2. A throwing construction during \<open>push_back\<close> or \<open>push_front\<close> should leave the
  container as before the call. With capacity 4 and the list \<open>{1}\<close>, \<open>push_front\<close> first
  moves the 1 to slot 1; when the construction of the new value then throws, the handler's
  loop \<^verbatim>\<open>for (i = 1; i < head_->count; ++i)\<close> does not run at all and the exception leaves the
  node with slot 0 empty. \<open>push_back\<close> on the empty list links a new node before its
  \<^verbatim>\<open>try\<close>, and its handler destroys the slot whose construction has just failed.
\<close>

theorem push_throw_not_rolled_back:
  "bind_o (init_list 4 [1 :: nat])
     (\<lambda>_ s. push_front 4 (Outside 9) (s\<lparr>ctor_plan := [False, True]\<rparr>)) =
   Throws \<lparr>m_head = Some 0, m_tail = Some 0, m_size = 1,
            heap = [Some \<lparr>prev = None, nxt = None, count = 1,
                           storage = [None, Some 1, None, None]\<rparr>],
            ctor_plan = []\<rparr> \<and>
   push_back 4 (Outside (9 :: nat)) (new_list\<lparr>ctor_plan := [True]\<rparr>) = Undefined"
  by code_simp

text \<open>
  C3. After a public call returns, \<open>empty()\<close>, \<open>size() == 0\<close> and
  \<open>head == tail == null\<close> should agree. Erasing the only element of a list returns from
  the \<^verbatim>\<open>nd == head_\<close> branch of \<open>erase\<close>, which resets the head pointer only: the
  tail pointer keeps the address of the node that was just freed, and the next
  \<open>push_back\<close> dereferences it.
\<close>

theorem erase_last_element_leaves_tail:
  "bind_o (init_list 4 [1 :: nat]) (\<lambda>_ s. erase (begin_it s) s) =
   Returns end_it \<lparr>m_head = None, m_tail = Some 0, m_size = 0, heap = [None],
                    ctor_plan = []\<rparr> \<and>
   bind_o (init_list 4 [1 :: nat]) (\<lambda>_ s. bind_o (erase (begin_it s) s) (\<lambda>_ s1.
     push_back 4 (Outside 2) s1)) = Undefined"
  by code_simp

text \<open>
  C4. On a well-formed list, with no construction throwing, \<open>erase\<close> at the cursor
  that \<open>k\<close> increments from \<open>begin()\<close> reach (\<open>k < size()\<close>) returns normally; the
  traversal afterwards visits the old elements without the \<open>k\<close>-th, \<open>size_\<close> is one
  less, the returned cursor is the one \<open>k\<close> increments from the new \<open>begin()\<close> reach, so
  it refers to the element that followed the erased one or is \<open>end()\<close> when there is
  none. When the node held one element it is freed and leaves the chain, wherever it was;
  otherwise the chain keeps its nodes. (After the only node of a list is freed the list
  is not well-formed: see C3.)
\<close>

theorem erase_removes_element:
  assumes wf: "wellformed C s as" and plan: "ctor_plan s = []" and k: "k < m_size s"
    and pos: "advance s k (begin_it s) = Some pos"
  shows "\<exists>xs r s' a n.
      to_list s = Some xs \<and> it_node pos = Some a \<and> lookup (heap s) a = Some n \<and>
      erase pos s = Returns r s' \<and>
      to_list s' = Some (take k xs @ drop (Suc k) xs) \<and>
      m_size s' = m_size s - 1 \<and>
      advance s' k (begin_it s') = Some r \<and>
      (if Suc k < length xs then deref s' r = Some (xs ! Suc k) else r = end_it) \<and>
      (if count n = 1
       then lookup (heap s') a = None \<and> (as \<noteq> [a] \<longrightarrow> wellformed C s' (remove1 a as))
       else wellformed C s' as)"
proof -
  let ?xs = "elems (heap s) as"
  from wf have ok: "nodes_ok C (heap s) as" and sz: "m_size s = length ?xs"
    and dist: "distinct as"
    by (simp_all add: wellformed_def)
  note tr = wellformed_traversal [OF wf]
  from tr(2) [of k] k pos have pos_eq: "pos = cursor_at (heap s) as k" by simp
  from cursor_at_decomp [OF ok, of k] k sz obtain pre a post n idx where
    dec: "as = pre @ a # post" "lookup (heap s) a = Some n" "idx < count n"
      "cursor_at (heap s) as k = Cursor (Some a) idx" "k = length (elems (heap s) pre) + idx"
    by auto
  note wf' = wf [unfolded dec(1)]
  note d = wellformed_decomp [OF wf' dec(2)]
  have xs: "?xs = elems (heap s) pre @ live n @ elems (heap s) post"
    using dec(1,2) by (simp add: elems_Cons)
  have il: "idx < length (live n)" using dec(3) length_live [OF d(14)] by simp
  have removed_eq: "take k ?xs @ drop (Suc k) ?xs =
      elems (heap s) pre @ take idx (live n) @ drop (Suc idx) (live n) @ elems (heap s) post"
    unfolding xs dec(5) by (rule take_drop_middle [OF il])
  have rm: "remove1 a as = pre @ post"
    using d(7) by (simp add: dec(1) remove1_append)
  have "\<exists>r s' as'. erase pos s = Returns r s' \<and> m_size s' = m_size s - 1 \<and>
      chain (heap s') None (m_head s') as' None \<and> nodes_ok C (heap s') as' \<and>
      elems (heap s') as' = take k ?xs @ drop (Suc k) ?xs \<and>
      r = cursor_at (heap s') as' k \<and>
      (if count n = 1
       then lookup (heap s') a = None \<and> (as \<noteq> [a] \<longrightarrow> wellformed C s' (remove1 a as))
       else wellformed C s' as)"
  proof (cases "count n = 1")
    case True
    with dec(3) have i0: "idx = 0" by simp
    from erase_unlink [OF wf' dec(2) True plan] obtain s' where
      s': "erase (Cursor (Some a) 0) s = Returns (Cursor (nxt n) 0) s'"
        "m_size s' = m_size s - 1"
        "m_head s' = (if pre = [] then nxt n else m_head s)"
        "m_tail s' = (if post = [] \<and> pre \<noteq> [] then prev n else m_tail s)"
        "lookup (heap s') a = None"
        "chain (heap s') None (m_head s') (pre @ post) None"
        "nodes_ok C (heap s') (pre @ post)"
        "elems (heap s') (pre @ post) = elems (heap s) pre @ elems (heap s) post"
        "cursor_at (heap s') (pre @ post) (length (elems (heap s) pre)) = Cursor (nxt n) 0"
      by blast
    from True il have ln: "length (live n) = 1" using length_live [OF d(14)] by simp
    have el: "elems (heap s') (pre @ post) = take k ?xs @ drop (Suc k) ?xs"
      unfolding removed_eq s'(8) using ln i0 by simp
    have "wellformed C s' (pre @ post)" if ne: "pre @ post \<noteq> []"
    proof -
      have "m_tail s' = Some (last (pre @ post))"
        using ne d(3,6) s'(4) by (auto simp: last_or_def)
      moreover have "m_size s' = length (elems (heap s') (pre @ post))"
        using s'(2,8) d(15) True by simp
      moreover have "distinct (pre @ post)" using d(9,10,11) by simp
      ultimately show ?thesis using s'(6,7) ne by (simp add: wellformed_def)
    qed
    moreover have "as \<noteq> [a] \<longrightarrow> pre @ post \<noteq> []" using dec(1) by auto
    ultimately have w: "as \<noteq> [a] \<longrightarrow> wellformed C s' (remove1 a as)"
      using rm by simp
    have "erase pos s = Returns (Cursor (nxt n) 0) s'"
      using s'(1) pos_eq dec(4) i0 by simp
    moreover have "Cursor (nxt n) 0 = cursor_at (heap s') (pre @ post) k"
      using s'(9) dec(5) i0 by simp
    ultimately show ?thesis
      using s'(2,5,6,7) el True w
      by - (rule exI, rule exI [of _ s'], rule exI [of _ "pre @ post"], simp)
  next
    case False
    with dec(3) have c2: "2 \<le> count n" by simp
    note ek = erase_keep [OF wf' dec(2,3) plan c2]
    let ?s' = "s\<lparr>heap := (heap s)[a := Some (removed idx n)], m_size := m_size s - 1\<rparr>"
    from ek(2) have "chain (heap ?s') None (m_head ?s') as None" "nodes_ok C (heap ?s') as"
      by (simp_all add: wellformed_def dec(1))
    moreover have "elems (heap ?s') as = take k ?xs @ drop (Suc k) ?xs"
      unfolding removed_eq using ek(3) by (simp add: dec(1))
    moreover have "(if count n - 1 \<le> idx then Cursor (nxt n) 0 else Cursor (Some a) idx) =
        cursor_at (heap ?s') as k"
      using ek(4) by (simp add: dec(1,5))
    moreover have "erase pos s =
        Returns (if count n - 1 \<le> idx then Cursor (nxt n) 0 else Cursor (Some a) idx) ?s'"
      using ek(1) pos_eq dec(4) by simp
    moreover have "wellformed C ?s' as" using ek(2) by (simp add: dec(1))
    ultimately show ?thesis using False by - (rule exI, rule exI [of _ ?s'], rule exI [of _ as], simp)
  qed
  then obtain r s' as' where
    r: "erase pos s = Returns r s'" "m_size s' = m_size s - 1"
      "chain (heap s') None (m_head s') as' None" "nodes_ok C (heap s') as'"
      "elems (heap s') as' = take k ?xs @ drop (Suc k) ?xs"
      "r = cursor_at (heap s') as' k"
      "if count n = 1
       then lookup (heap s') a = None \<and> (as \<noteq> [a] \<longrightarrow> wellformed C s' (remove1 a as))
       else wellformed C s' as"
    by blast
  have len': "length (elems (heap s') as') = length ?xs - 1"
    unfolding r(5) using k sz by simp
  have tl: "to_list s' = Some (take k ?xs @ drop (Suc k) ?xs)"
    using to_list_elems [OF r(3,4)] r(5) by simp
  have adv: "advance s' k (begin_it s') = Some r"
    using advance_cursor_at [OF r(3,4), of 0 k] begin_cursor_at [OF r(3,4)] len' k sz r(6)
    by simp
  have dr: "if Suc k < length ?xs then deref s' r = Some (?xs ! Suc k) else r = end_it"
  proof (cases "Suc k < length ?xs")
    case True
    with len' have "k < length (elems (heap s') as')" by simp
    from deref_cursor_at [OF r(4) this] True show ?thesis
      unfolding r(6) r(5) by (simp add: nth_take_drop_Suc)
  next
    case False
    with len' have "length (elems (heap s') as') \<le> k" by simp
    from cursor_at_end [OF r(4) this] False show ?thesis by (simp add: r(6))
  qed
  from pos_eq dec(4) have "it_node pos = Some a" by simp
  with tr(1) dec(2) r(1,2,7) tl adv dr show ?thesis by blast
qed

theorem erase_removes_element_witness:
  "wellformed 4 example_list [0, 1] \<and> ctor_plan example_list = [] \<and>
   1 < m_size example_list \<and>
   advance example_list 1 (begin_it example_list) = Some (Cursor (Some 0) 1) \<and>
   (\<exists>xs r s' a n.
      to_list example_list = Some xs \<and> it_node (Cursor (Some 0) 1) = Some a \<and>
      lookup (heap example_list) a = Some n \<and>
      erase (Cursor (Some 0) 1) example_list = Returns r s' \<and>
      to_list s' = Some (take 1 xs @ drop (Suc 1) xs) \<and>
      m_size s' = m_size example_list - 1 \<and>
      advance s' 1 (begin_it s') = Some r \<and>
      (if Suc 1 < length xs then deref s' r = Some (xs ! Suc 1) else r = end_it) \<and>
      (if count n = 1
       then lookup (heap s') a = None \<and> ([0, 1] \<noteq> [a] \<longrightarrow> wellformed 4 s' (remove1 a [0, 1]))
       else wellformed 4 s' [0, 1]))"
proof -
  have h1: "wellformed 4 example_list [0, 1]" by code_simp
  have h2: "ctor_plan example_list = []" by code_simp
  have h3: "1 < m_size example_list" by code_simp
  have h4: "advance example_list 1 (begin_it example_list) = Some (Cursor (Some 0) 1)"
    by code_simp
  from erase_removes_element [OF h1 h2 h3 h4] h1 h2 h3 h4 show ?thesis by blast
qed




text \<open>
  C6. Every node of the chain should hold between 1 and \<open>NodeMaxSize\<close> elements after
  every public call, also after one that threw. \<open>push_front\<close> on the empty list links a
  new node as head and tail before its \<^verbatim>\<open>try\<close>; when the construction of the value
  throws, the node stays in the chain with \<open>count = 0\<close>.
\<close>

theorem push_front_throw_leaves_empty_node:
  "push_front 4 (Outside (9 :: nat)) (new_list\<lparr>ctor_plan := [True]\<rparr>) =
   Throws \<lparr>m_head = Some 0, m_tail = Some 0, m_size = 0,
            heap = [Some \<lparr>prev = None, nxt = None, count = 0,
                           storage = [None, None, None, None]\<rparr>],
            ctor_plan = []\<rparr>"
  by code_simp

text \<open>
  C7. \<open>insert(position, n, value)\<close> should give the sequence that \<open>n\<close> single insertions
  at that logical position give. The loop passes the caller's cursor to every round.
  With capacity 4, the list \<open>{1, 2, 3, 4}\<close> and the cursor at index 3, the first round
  splits the node and the cursor's index 3 then lies beyond the two elements left in the
  old node: the second round constructs the value in slot 3 and counts slot 2, which
  holds no element, as live. Two single insertions at position 3 give
  \<open>{1, 2, 3, 9, 9, 4}\<close>.
\<close>

theorem insert_n_reuses_stale_cursor:
  "bind_o (init_list 4 [1, 2, 3, 4 :: nat]) (\<lambda>_ s. insert_n 4 (Cursor (Some 0) 3) 2 (Outside 9) s) =
   Returns (Cursor (Some 0) 3)
     \<lparr>m_head = Some 0, m_tail = Some 1, m_size = 6,
      heap = [Some \<lparr>prev = None, nxt = Some 1, count = 3,
                     storage = [Some 1, Some 2, None, Some 9]\<rparr>,
              Some \<lparr>prev = Some 0, nxt = None, count = 3,
                     storage = [Some 3, Some 9, Some 4, None]\<rparr>],
      ctor_plan = []\<rparr> \<and>
   (case bind_o (init_list 4 [1, 2, 3, 4 :: nat]) (\<lambda>_ s. insert_n 4 (Cursor (Some 0) 3) 2 (Outside 9) s)
    of Returns r s' \<Rightarrow> to_list s' | _ \<Rightarrow> Some []) = None \<and>
   (case bind_o (init_list 4 [1, 2, 3, 4 :: nat]) (\<lambda>_ s.
           bind_o (insert_elem 4 (Cursor (Some 0) 3) (Outside 9) s) (\<lambda>r s1. insert_elem 4 r (Outside 9) s1))
    of Returns r s' \<Rightarrow> to_list s' | _ \<Rightarrow> None) = Some [1, 2, 3, 9, 9, 4]"
  by code_simp

text \<open>
  C8. For two well-formed lists \<open>operator==\<close> returns, and it returns true exactly when
  the sizes agree and the elements the two traversals visit agree position by position;
  \<open>operator!=\<close> returns the negation.
\<close>

theorem op_eq_compares_sequences:
  assumes "wellformed C s as" "wellformed C t bs"
  shows "\<exists>xs ys. to_list s = Some xs \<and> to_list t = Some ys \<and>
           m_size s = length xs \<and> m_size t = length ys \<and>
           op_eq s t =
             Some (Returns (m_size s = m_size t \<and> (\<forall>i<length xs. xs ! i = ys ! i)) s) \<and>
           op_neq s t =
             Some (Returns (\<not> (m_size s = m_size t \<and> (\<forall>i<length xs. xs ! i = ys ! i))) s)"
proof -
  let ?xs = "elems (heap s) as" and ?ys = "elems (heap t) bs"
  from assms have s: "chain (heap s) None (m_head s) as None" "nodes_ok C (heap s) as"
    and t: "chain (heap t) None (m_head t) bs None" "nodes_ok C (heap t) bs"
    and sz: "m_size s = length ?xs" "m_size t = length ?ys"
    by (simp_all add: wellformed_def)
  have eq: "op_eq s t = Some (Returns (m_size s = m_size t \<and> (\<forall>i<length ?xs. ?xs ! i = ?ys ! i)) s)"
  proof (cases "m_size s = m_size t")
    case False
    then show ?thesis by (simp add: op_eq_def)
  next
    case True
    with sz have len: "length ?xs = length ?ys" by simp
    from eq_loop_cursor_at [OF s t len, of 0] True len show ?thesis
      by (simp add: op_eq_def begin_cursor_at [OF s] begin_cursor_at [OF t] list_eq_iff_nth_eq)
  qed
  then have "op_neq s t =
      Some (Returns (\<not> (m_size s = m_size t \<and> (\<forall>i<length ?xs. ?xs ! i = ?ys ! i))) s)"
    by (simp add: op_neq_def)
  with eq sz wellformed_traversal(1) [OF assms(1)] wellformed_traversal(1) [OF assms(2)]
  show ?thesis by blast
qed

theorem op_eq_compares_sequences_witness:
  "wellformed 4 example_list [0, 1] \<and> wellformed 4 example_split [0, 1] \<and>
   op_eq example_list example_split = Some (Returns True example_list) \<and>
   op_neq example_list example_split = Some (Returns False example_list)"
proof -
  have h1: "wellformed 4 example_list [0, 1]" by code_simp
  have h2: "wellformed 4 example_split [0, 1]" by code_simp
  have xs: "to_list example_list = Some [1, 2, 3, 4, 5]" by code_simp
  have ys: "to_list example_split = Some [1, 2, 3, 4, 5]" by code_simp
  from op_eq_compares_sequences [OF h1 h2] obtain xs' ys' where
    *: "to_list example_list = Some xs'" "to_list example_split = Some ys'"
       "op_eq example_list example_split =
          Some (Returns (m_size example_list = m_size example_split \<and>
                         (\<forall>i<length xs'. xs' ! i = ys' ! i)) example_list)"
       "op_neq example_list example_split =
          Some (Returns (\<not> (m_size example_list = m_size example_split \<and>
                             (\<forall>i<length xs'. xs' ! i = ys' ! i))) example_list)"
    by blast
  from *(1,2) xs ys have e: "xs' = [1, 2, 3, 4, 5]" "ys' = [1, 2, 3, 4, 5]" by simp_all
  have sz: "m_size example_list = m_size example_split" by code_simp
  from *(3,4) h1 h2 sz show ?thesis unfolding e by simp
qed

text \<open>
  C9. \<open>operator--\<close> on the end sentinel (the cursor with the null node) returns at once
  and gives the end sentinel back. So however often \<open>end()\<close> is decremented, the cursor
  stays the end sentinel, which refers to no element and differs from every cursor into
  a node, the one to the last element included: a reverse traversal from
  \<open>reverse_iterator(end())\<close>, which steps by decrementing, reaches no element.
\<close>

theorem decrement_of_end_is_end:
  "it_decr s end_it = Some end_it \<and>
   decr_times s k end_it = Some end_it \<and>
   deref s end_it = None \<and>
   end_it \<noteq> Cursor (Some a) i"
  by (induction k) (simp_all add: it_decr_def end_it_def deref_def elem_at_def fetch_def)

text \<open>
  C10. \<open>pop_back\<close> and \<open>pop_front\<close> on an empty container (one whose \<open>size_\<close> is 0)
  return normally and leave the whole state, heap included, as it was.
\<close>

theorem pop_on_empty_is_noop:
  "m_size s = 0 \<Longrightarrow> pop_back s = Returns () s \<and> pop_front s = Returns () s"
  by (simp add: pop_back_def pop_front_def empty_ul_def noexcept_def)

theorem pop_on_empty_is_noop_witness:
  "m_size (new_list :: nat unrolled_list) = 0 \<and>
   pop_back (new_list :: nat unrolled_list) = Returns () new_list \<and>
   pop_front (new_list :: nat unrolled_list) = Returns () new_list"
  using pop_on_empty_is_noop [of "new_list :: nat unrolled_list"]
  by (simp add: new_list_def)

end
